theory Spec2Isabelle
  imports Complex_Main "HOL-Library.Multiset"
begin

section \<open>Values shared by the whole model\<close>

text \<open>
  The exceptions the modelled code can raise. A function that can raise returns
  \<open>py_error + 'a\<close>, with \<open>Inl\<close> for the exception.
\<close>

datatype py_error = IndexError | ZeroDivisionError | TypeError | AttributeError

text \<open>
  A Python float as far as the claims need it: minus infinity (the value of
  \<open>float('-inf')\<close>) or a finite number. Finite floats are idealised as real numbers:
  rounding and overflow are outside this model.
\<close>

datatype pyfloat = NegInf | Finite real

text \<open>True division \<open>a / b\<close>: raises on a zero denominator.\<close>

definition py_truediv :: "real \<Rightarrow> real \<Rightarrow> py_error + real" where
  "py_truediv a b = (if b = 0 then Inl ZeroDivisionError else Inr (a / b))"

section \<open>normalize\_text\<close>

text \<open>
  \<open>normalize_text\<close> with its default arguments (every caller in the file uses them):
  lower-case, drop URLs, drop punctuation, drop digits, find the runs of word characters
  and join them with single blanks. The model reads a \<open>string\<close> as 7-bit ASCII text:
  the character classes below are those of Python's \<open>str.lower\<close>, \<open>\s\<close>,
  \<open>string.punctuation\<close>, \<open>\d\<close> and \<open>\w\<close> on code points below 128; a
  code point from 128 on belongs to none of them here.
\<close>

definition ascii_lower :: "char \<Rightarrow> char" where
  "ascii_lower c =
     (let k = (of_char c :: nat) in if 65 \<le> k \<and> k \<le> 90 then char_of (k + 32) else c)"

definition is_space :: "char \<Rightarrow> bool" where
  "is_space c =
     (let k = (of_char c :: nat) in (9 \<le> k \<and> k \<le> 13) \<or> (28 \<le> k \<and> k \<le> 32))"

definition is_punctuation :: "char \<Rightarrow> bool" where
  "is_punctuation c =
     (let k = (of_char c :: nat)
      in (33 \<le> k \<and> k \<le> 47) \<or> (58 \<le> k \<and> k \<le> 64) \<or>
         (91 \<le> k \<and> k \<le> 96) \<or> (123 \<le> k \<and> k \<le> 126))"

definition is_digit :: "char \<Rightarrow> bool" where
  "is_digit c = (let k = (of_char c :: nat) in 48 \<le> k \<and> k \<le> 57)"

definition is_word_char :: "char \<Rightarrow> bool" where
  "is_word_char c =
     (let k = (of_char c :: nat)
      in (48 \<le> k \<and> k \<le> 57) \<or> (65 \<le> k \<and> k \<le> 90) \<or> k = 95 \<or>
         (97 \<le> k \<and> k \<le> 122))"

text \<open>
  Whether the pattern \<open>https?://\S+\<close> matches at the head of the text: the scheme,
  then at least one character that is not white space.
\<close>

definition url_starts :: "string \<Rightarrow> bool" where
  "url_starts s =
     ((take 8 s = ''https://'' \<and> 8 < length s \<and> \<not> is_space (s ! 8)) \<or>
      (take 7 s = ''http://'' \<and> 7 < length s \<and> \<not> is_space (s ! 7)))"

text \<open>
  \<open>re.sub(r'https?://\S+', '', text)\<close>, scanning left to right. A match runs to the
  next white space (the scheme itself holds none), so the scan is a two-state loop:
  inside a match every character is dropped until white space ends it.
\<close>

fun remove_urls_from :: "bool \<Rightarrow> string \<Rightarrow> string" where
  "remove_urls_from inside [] = []"
| "remove_urls_from inside (c # cs) =
     (if inside then (if is_space c then c # remove_urls_from False cs
                      else remove_urls_from True cs)
      else if url_starts (c # cs) then remove_urls_from True cs
      else c # remove_urls_from False cs)"

text \<open>
  The maximal runs of characters satisfying \<open>p\<close>, in order: \<open>re.findall(r'\w+', text)\<close>
  with \<open>p\<close> the word characters, and \<open>str.split()\<close> with \<open>p\<close> the characters that are
  not white space. \<open>cur\<close> is the run being read.
\<close>

fun runs :: "(char \<Rightarrow> bool) \<Rightarrow> string \<Rightarrow> string \<Rightarrow> string list" where
  "runs p cur [] = (if cur = [] then [] else [cur])"
| "runs p cur (c # cs) =
     (if p c then runs p (cur @ [c]) cs
      else (if cur = [] then [] else [cur]) @ runs p [] cs)"

fun join :: "string \<Rightarrow> string list \<Rightarrow> string" where
  "join sep [] = []"
| "join sep [w] = w"
| "join sep (w # ws) = w @ sep @ join sep ws"

definition split :: "string \<Rightarrow> string list" where
  "split s = runs (\<lambda>c. \<not> is_space c) [] s"

definition normalize_text :: "string \<Rightarrow> string" where
  "normalize_text text =
     (let text = map ascii_lower text;
          text = remove_urls_from False text;
          text = filter (\<lambda>c. \<not> is_punctuation c) text;
          text = filter (\<lambda>c. \<not> is_digit c) text;
          tokens = runs is_word_char [] text
      in join '' '' tokens)"

section \<open>Language\_Model\<close>

text \<open>
  The fields of \<open>Language_Model\<close>. A \<open>Counter\<close> is a multiset of its keys (a key is
  present exactly when its count is positive: the code only ever adds to a count);
  \<open>model_dict\<close>, a \<open>defaultdict(int)\<close> that is only incremented, likewise. The
  \<open>defaultdict(Counter)\<close> \<open>suggestions\<close> is a total function from contexts to
  counters, the empty counter being the default (reading a missing context stores an
  empty counter under it, which changes no count and no result of the functions
  modelled here). Tuples of tokens are lists. The order \<open>n\<close> is a natural number:
  the code is modelled for orders that are not negative, the order 0 included.
\<close>

record language_model =
  n :: nat
  chars :: bool
  char_pair :: "string multiset"
  char_counts :: "char multiset"
  model_dict :: "string list multiset"
  suggestions :: "string list \<Rightarrow> string multiset"
  freq_tokens :: "string multiset"
  token_count :: nat
  vocab :: "string set"

text \<open>The constructor \<open>Language_Model(n, chars)\<close>.\<close>

definition Language_Model :: "nat \<Rightarrow> bool \<Rightarrow> language_model" where
  "Language_Model n0 chars0 =
     \<lparr> n = n0, chars = chars0, char_pair = {#}, char_counts = {#}, model_dict = {#},
       suggestions = (\<lambda>_. {#}), freq_tokens = {#}, token_count = 0, vocab = {} \<rparr>"

text \<open>
  The tokens of a normalized text: its characters in character mode, the result of
  \<open>split()\<close> otherwise.
\<close>

definition tokens_of :: "language_model \<Rightarrow> string \<Rightarrow> string list" where
  "tokens_of lm normalized_text =
     (if chars lm then map (\<lambda>c. [c]) normalized_text else split normalized_text)"

text \<open>
  The first loop of \<open>build_model\<close>: for \<open>i\<close> in \<open>range(len(normalized_text) - 1)\<close>
  count the character at \<open>i\<close> and the pair \<open>normalized_text[i:i + 2]\<close>.
\<close>

definition count_chars ::
  "string \<Rightarrow> char multiset \<times> string multiset \<Rightarrow> char multiset \<times> string multiset" where
  "count_chars normalized_text =
     fold (\<lambda>i (cc, cp). (add_mset (normalized_text ! i) cc,
                          add_mset (take 2 (drop i normalized_text)) cp))
          [0..<length normalized_text - 1]"

text \<open>
  The sentinel padding: \<open>['<s>'] * (n - 1) + tokens + ['</s>']\<close> (a list times a
  number below one is empty, as the truncating subtraction gives).
\<close>

definition pad :: "nat \<Rightarrow> string list \<Rightarrow> string list" where
  "pad k tokens = replicate (k - 1) ''<s>'' @ tokens @ [''</s>'']"

text \<open>
  The second loop of \<open>build_model\<close>, at index \<open>i\<close> of the padded tokens: the n-gram
  is \<open>tokens[i - n + 1:i + 1]\<close> (both bounds are never negative, since \<open>i \<ge> n - 1\<close>),
  the next token \<open>tokens[i]\<close> (read from the end when \<open>i = -1\<close>, which happens for
  \<open>n = 0\<close> only).
\<close>

definition ngram_at :: "nat \<Rightarrow> string list \<Rightarrow> int \<Rightarrow> string list" where
  "ngram_at k tokens i = take k (drop (nat (i - int k + 1)) tokens)"

definition next_token_at :: "string list \<Rightarrow> int \<Rightarrow> string" where
  "next_token_at tokens i =
     (if i < 0 then tokens ! nat (int (length tokens) + i) else tokens ! nat i)"

text \<open>One round: both tables are incremented.\<close>

definition count_ngram ::
  "nat \<Rightarrow> string list \<Rightarrow> int \<Rightarrow>
   string list multiset \<times> (string list \<Rightarrow> string multiset) \<Rightarrow>
   string list multiset \<times> (string list \<Rightarrow> string multiset)" where
  "count_ngram k tokens i = (\<lambda>(md, sg).
     (let ngram = ngram_at k tokens i;
          next_token = next_token_at tokens i
      in (add_mset ngram md,
          sg(butlast ngram := add_mset next_token (sg (butlast ngram))))))"

text \<open>The loop itself: \<open>for i in range(n - 1, len(tokens))\<close>.\<close>

definition count_ngrams ::
  "nat \<Rightarrow> string list \<Rightarrow>
   string list multiset \<times> (string list \<Rightarrow> string multiset) \<Rightarrow>
   string list multiset \<times> (string list \<Rightarrow> string multiset)" where
  "count_ngrams k tokens =
     fold (count_ngram k tokens) [int k - 1 .. int (length tokens) - 1]"

text \<open>
  \<open>build_model\<close>. The only statement that can raise is
  \<open>self.char_counts[normalized_text[-1]] += 1\<close>, on an empty normalized text; the loop
  before it has then run zero times, so the model is left as it was.
\<close>

definition build_model :: "language_model \<Rightarrow> string \<Rightarrow> py_error + language_model" where
  "build_model lm text =
     (let normalized_text = normalize_text text;
          tokens = tokens_of lm normalized_text;
          (cc, cp) = count_chars normalized_text (char_counts lm, char_pair lm)
      in if normalized_text = [] then Inl IndexError
         else
           (let cc = add_mset (last normalized_text) cc;
                ft = freq_tokens lm + mset tokens;
                tc = size ft;
                vc = vocab lm \<union> set_mset ft;
                tokens = pad (n lm) tokens;
                (md, sg) = count_ngrams (n lm) tokens (model_dict lm, suggestions lm)
            in Inr (lm\<lparr> char_pair := cp, char_counts := cc, model_dict := md,
                        suggestions := sg, freq_tokens := ft, token_count := tc,
                        vocab := vc \<rparr>)))"

text \<open>
  \<open>smooth\<close>. Reading \<open>ngram[-1]\<close> raises on the empty tuple; the division raises when
  the context total and the vocabulary size are both zero.
\<close>

definition smooth :: "language_model \<Rightarrow> string list \<Rightarrow> py_error + real" where
  "smooth lm ngram =
     (if ngram = [] then Inl IndexError
      else
        (let context = butlast ngram;
             context_count = size (suggestions lm context);
             token_count = count (model_dict lm) ngram
         in py_truediv (real (token_count + 1))
                       (real (context_count + card (vocab lm)))))"

text \<open>
  The probability \<open>evaluate_text\<close> gives one window: the relative frequency of the last
  token among the continuations of the context when \<open>smooth\<close> is off, the result of
  \<open>self.smooth(ngram)\<close> when it is on.
\<close>

definition window_prob :: "language_model \<Rightarrow> bool \<Rightarrow> string list \<Rightarrow> py_error + real" where
  "window_prob lm smoothing ngram =
     (if \<not> smoothing then
        (if ngram = [] then Inl IndexError
         else
           (let context = butlast ngram;
                token = last ngram;
                context_count = size (suggestions lm context);
                token_count = count (suggestions lm context) token
            in if context_count > 0 then py_truediv (real token_count) (real context_count)
               else Inr 0))
      else smooth lm ngram)"

text \<open>
  The loop of \<open>evaluate_text\<close> over the window positions, with the running
  \<open>log_prob\<close>; \<open>math.log\<close> is the natural logarithm.
\<close>

fun evaluate_loop ::
  "language_model \<Rightarrow> bool \<Rightarrow> string list \<Rightarrow> nat list \<Rightarrow> real \<Rightarrow> py_error + real" where
  "evaluate_loop lm smoothing tokens [] log_prob = Inr log_prob"
| "evaluate_loop lm smoothing tokens (i # rest) log_prob =
     (let ngram = take (n lm) (drop i tokens)
      in case window_prob lm smoothing ngram of
           Inl e \<Rightarrow> Inl e
         | Inr prob \<Rightarrow>
             evaluate_loop lm smoothing tokens rest
               (if prob > 0 then log_prob + ln prob else log_prob + ln (1 / 10 ^ 8)))"

definition evaluate_text :: "language_model \<Rightarrow> string \<Rightarrow> py_error + pyfloat" where
  "evaluate_text lm text =
     (let normalized_text = normalize_text text;
          tokens = tokens_of lm normalized_text
      in if tokens = [] then Inr NegInf
         else
           (let smoothing = (\<exists>token \<in> set tokens. token \<notin># freq_tokens lm);
                window_size = n lm;
                tokens = pad window_size tokens
            in case evaluate_loop lm smoothing tokens
                      [0..<length tokens + 1 - window_size] 0 of
                 Inl e \<Rightarrow> Inl e
               | Inr log_prob \<Rightarrow> Inr (Finite log_prob)))"

text \<open>
  The states a language model can be in: as constructed, or after a call of
  \<open>build_model\<close> that returned.
\<close>

inductive reachable :: "language_model \<Rightarrow> bool" where
  fresh: "reachable (Language_Model k c)"
| built: "reachable lm \<Longrightarrow> build_model lm text = Inr lm' \<Longrightarrow> reachable lm'"

text \<open>
  \<open>built_from m m'\<close>: the model \<open>m'\<close> is what a sequence of calls of
  \<open>build_model\<close>, each of which returned, makes of the model \<open>m\<close>.
\<close>

inductive built_from :: "language_model \<Rightarrow> language_model \<Rightarrow> bool" where
  no_call: "built_from lm lm"
| call: "built_from lm lm1 \<Longrightarrow> build_model lm1 text = Inr lm2 \<Longrightarrow> built_from lm lm2"

subsection \<open>The quantities the specification names\<close>

text \<open>
  What the specification calls the padded windows of a token sequence, the Laplace
  estimate, the raw relative frequency and the floored logarithm. They are stated in the
  specification's words, to be compared with what the code computes.
\<close>

definition windows :: "nat \<Rightarrow> string list \<Rightarrow> string list list" where
  "windows k tokens =
     map (\<lambda>i. take k (drop i (pad k tokens))) [0..<length (pad k tokens) + 1 - k]"

definition laplace :: "language_model \<Rightarrow> string list \<Rightarrow> real" where
  "laplace lm ngram =
     (real (count (model_dict lm) ngram) + 1) /
     (real (size (suggestions lm (butlast ngram))) + real (card (vocab lm)))"

definition relative_frequency :: "language_model \<Rightarrow> string list \<Rightarrow> real" where
  "relative_frequency lm ngram =
     (if size (suggestions lm (butlast ngram)) = 0 then 0
      else real (count (suggestions lm (butlast ngram)) (last ngram)) /
           real (size (suggestions lm (butlast ngram))))"

definition floored_log :: "real \<Rightarrow> real" where
  "floored_log prob = (if prob > 0 then ln prob else ln (1 / 10 ^ 8))"

section \<open>Spell\_Checker\<close>

text \<open>
  The error tables: a dictionary with the four keys of the confusion matrices, each a
  dictionary from two-character strings to weights. \<open>d.get(key, dflt)\<close> is
  \<open>dict_get\<close>.
\<close>

record tables =
  insertion :: "string \<rightharpoonup> real"
  deletion :: "string \<rightharpoonup> real"
  substitution :: "string \<rightharpoonup> real"
  transposition :: "string \<rightharpoonup> real"

definition dict_get :: "('k \<rightharpoonup> 'v) \<Rightarrow> 'k \<Rightarrow> 'v \<Rightarrow> 'v" where
  "dict_get d key dflt = (case d key of None \<Rightarrow> dflt | Some v \<Rightarrow> v)"

text \<open>
  The two instance variables of \<open>Spell_Checker\<close>; each may be \<open>None\<close>. Reading an
  attribute of a missing language model raises AttributeError, subscripting missing
  error tables raises TypeError.
\<close>

record spell_checker =
  lm :: "language_model option"
  error_tables :: "tables option"

text \<open>
  \<open>known\<close>: the words of an iterable that are in the vocabulary, as a set. The
  iterable is given by the set of its elements: this is all \<open>known\<close> reads of it.
\<close>

definition known :: "spell_checker \<Rightarrow> string set \<Rightarrow> py_error + string set" where
  "known sc words =
     (case lm sc of
        None \<Rightarrow> Inl AttributeError
      | Some m \<Rightarrow> Inr {word \<in> words. word \<in> vocab m})"

definition letters :: string where
  "letters = ''abcdefghijklmnopqrstuvwxyz''"

definition splits :: "string \<Rightarrow> (string \<times> string) list" where
  "splits word = map (\<lambda>i. (take i word, drop i word)) [0..<length word + 1]"

definition deletes :: "string \<Rightarrow> string list" where
  "deletes word = [L @ drop 1 R. (L, R) \<leftarrow> splits word, R \<noteq> []]"

definition transposes :: "string \<Rightarrow> string list" where
  "transposes word =
     [L @ [R ! 1] @ [R ! 0] @ drop 2 R. (L, R) \<leftarrow> splits word, length R > 1]"

definition replaces :: "string \<Rightarrow> string list" where
  "replaces word = [L @ [c] @ drop 1 R. (L, R) \<leftarrow> splits word, R \<noteq> [], c \<leftarrow> letters]"

definition inserts :: "string \<Rightarrow> string list" where
  "inserts word = [L @ [c] @ R. (L, R) \<leftarrow> splits word, c \<leftarrow> letters]"

definition edits1 :: "string \<Rightarrow> string set" where
  "edits1 word = set (deletes word @ transposes word @ replaces word @ inserts word)"

text \<open>
  \<open>edits2\<close> is a generator; its only consumer, \<open>known\<close>, reads the set of its
  elements.
\<close>

definition edits2 :: "string \<Rightarrow> string set" where
  "edits2 word = (\<Union>e1 \<in> edits1 word. edits1 e1)"

text \<open>
  \<open>get_candidates\<close>: a chain of \<open>or\<close> over sets, each operand evaluated only when
  the ones before it are empty.
\<close>

definition get_candidates :: "spell_checker \<Rightarrow> string \<Rightarrow> py_error + string set" where
  "get_candidates sc word =
     (case known sc {word} of
        Inl e \<Rightarrow> Inl e
      | Inr k0 \<Rightarrow>
          if k0 \<noteq> {} then Inr k0
          else (case known sc (edits1 word) of
                  Inl e \<Rightarrow> Inl e
                | Inr k1 \<Rightarrow>
                    if k1 \<noteq> {} then Inr k1
                    else (case known sc (edits2 word) of
                            Inl e \<Rightarrow> Inl e
                          | Inr k2 \<Rightarrow> if k2 \<noteq> {} then Inr k2 else Inr {word})))"

text \<open>
  The tail shared by the four estimators once an edit point and its character pair are
  found: look the pair up in the error table, read the normalizing frequency from the
  language model, and return \<open>prob / frequency if frequency else 0.0\<close>.
\<close>

definition ratio_or_zero :: "real \<Rightarrow> nat \<Rightarrow> py_error + real" where
  "ratio_or_zero prob frequency =
     (if frequency \<noteq> 0 then py_truediv prob (real frequency) else Inr 0)"

text \<open>
  Deletion and insertion look for the first index whose removal from the longer word
  leaves the shorter one (\<open>word[:idx] + word[idx + 1:] == other\<close>); the character
  pair of the edit is the removed character after its predecessor, or after \<open>#\<close> at
  index 0.
\<close>

definition removal_point :: "string \<Rightarrow> string \<Rightarrow> nat \<Rightarrow> bool" where
  "removal_point word other idx = (take idx word @ drop (idx + 1) word = other)"

definition edit_pair :: "string \<Rightarrow> nat \<Rightarrow> string" where
  "edit_pair word idx =
     (let char = word ! idx
      in if idx = 0 then [CHR ''#'', char] else [word ! (idx - 1), char])"

definition deletion_probability :: "spell_checker \<Rightarrow> string \<Rightarrow> string \<Rightarrow> py_error + real" where
  "deletion_probability sc modified_word original_word =
     (if length modified_word \<noteq> length original_word + 1 then Inr 0
      else
        (case find (removal_point modified_word original_word) [0..<length modified_word] of
           None \<Rightarrow> Inr 0
         | Some idx \<Rightarrow>
             (let pair = edit_pair modified_word idx
              in case error_tables sc of
                   None \<Rightarrow> Inl TypeError
                 | Some t \<Rightarrow>
                     (let deletion_prob = dict_get (deletion t) pair 0
                      in case lm sc of
                           None \<Rightarrow> Inl AttributeError
                         | Some m \<Rightarrow> ratio_or_zero deletion_prob (count (char_pair m) pair)))))"

definition insertion_probability :: "spell_checker \<Rightarrow> string \<Rightarrow> string \<Rightarrow> py_error + real" where
  "insertion_probability sc modified_word original_word =
     (if length modified_word + 1 \<noteq> length original_word then Inr 0
      else
        (case find (removal_point original_word modified_word) [0..<length original_word] of
           None \<Rightarrow> Inr 0
         | Some idx \<Rightarrow>
             (let pair = edit_pair original_word idx
              in case error_tables sc of
                   None \<Rightarrow> Inl TypeError
                 | Some t \<Rightarrow>
                     (let insertion_prob = dict_get (insertion t) pair 0
                      in case lm sc of
                           None \<Rightarrow> Inl AttributeError
                         | Some m \<Rightarrow>
                             ratio_or_zero insertion_prob (count (char_counts m) (pair ! 0))))))"

text \<open>
  Substitution reads the first position of \<open>zip(modified_word, original_word)\<close> at
  which the characters differ; the pair is the original character followed by the
  modified one, and the normalizing frequency is that of \<open>char_pair[1]\<close>.
\<close>

definition substitution_probability :: "spell_checker \<Rightarrow> string \<Rightarrow> string \<Rightarrow> py_error + real" where
  "substitution_probability sc modified_word original_word =
     (if length modified_word \<noteq> length original_word then Inr 0
      else
        (case find (\<lambda>(mod_char, orig_char). mod_char \<noteq> orig_char)
                (zip modified_word original_word) of
           None \<Rightarrow> Inr 0
         | Some (mod_char, orig_char) \<Rightarrow>
             (let pair = [orig_char, mod_char]
              in case error_tables sc of
                   None \<Rightarrow> Inl TypeError
                 | Some t \<Rightarrow>
                     (let substitution_prob = dict_get (substitution t) pair 0
                      in case lm sc of
                           None \<Rightarrow> Inl AttributeError
                         | Some m \<Rightarrow>
                             ratio_or_zero substitution_prob (count (char_counts m) (pair ! 1))))))"

text \<open>
  Transposition looks for the first index \<open>i\<close> in \<open>range(len(original_word) - 1)\<close>
  at which the two words have their characters at \<open>i\<close> and \<open>i + 1\<close> exchanged and
  agree elsewhere.
\<close>

definition transposition_point :: "string \<Rightarrow> string \<Rightarrow> nat \<Rightarrow> bool" where
  "transposition_point modified_word original_word i =
     (original_word ! i = modified_word ! (i + 1) \<and>
      original_word ! (i + 1) = modified_word ! i \<and>
      take i original_word @ drop (i + 2) original_word =
      take i modified_word @ drop (i + 2) modified_word)"

definition transposition_probability :: "spell_checker \<Rightarrow> string \<Rightarrow> string \<Rightarrow> py_error + real" where
  "transposition_probability sc modified_word original_word =
     (if length modified_word \<noteq> length original_word then Inr 0
      else
        (case find (transposition_point modified_word original_word)
                [0..<length original_word - 1] of
           None \<Rightarrow> Inr (1 / 10 ^ 8)
         | Some i \<Rightarrow>
             (let pair = take 2 (drop i original_word)
              in case error_tables sc of
                   None \<Rightarrow> Inl TypeError
                 | Some t \<Rightarrow>
                     (let transposition_prob = dict_get (transposition t) pair 0
                      in case lm sc of
                           None \<Rightarrow> Inl AttributeError
                         | Some m \<Rightarrow>
                             ratio_or_zero transposition_prob (count (char_pair m) pair)))))"

text \<open>
  \<open>get_correction\<close>. The call \<open>max(candidates, key=...)\<close> scores every candidate with
  floating-point products of exponentials and breaks ties by the iteration order of a
  set; both are outside this model, so the call is the parameter \<open>best\<close>, which
  receives what the call reads: the candidates, the word, the context and alpha. It
  returns the chosen candidate, or the exception that scoring a candidate raised.
\<close>

definition get_correction ::
  "(string set \<Rightarrow> string \<Rightarrow> string \<Rightarrow> real \<Rightarrow> py_error + string) \<Rightarrow>
   spell_checker \<Rightarrow> string \<Rightarrow> string \<Rightarrow> real \<Rightarrow> py_error + string" where
  "get_correction best sc word context alpha =
     (case get_candidates sc word of
        Inl e \<Rightarrow> Inl e
      | Inr candidates \<Rightarrow>
          if candidates = {} then Inr word
          else best candidates word context alpha)"

text \<open>
  What \<open>max\<close> guarantees when scoring raises nothing: it returns one of the
  candidates.
\<close>

definition max_like ::
  "(string set \<Rightarrow> string \<Rightarrow> string \<Rightarrow> real \<Rightarrow> py_error + string) \<Rightarrow> bool" where
  "max_like best = (\<forall>S w c a. S \<noteq> {} \<longrightarrow> (\<exists>x \<in> S. best S w c a = Inr x))"

text \<open>The loop of the short-text branch of \<open>spell_check\<close>, over the tokens.\<close>

fun correct_each ::
  "(string set \<Rightarrow> string \<Rightarrow> string \<Rightarrow> real \<Rightarrow> py_error + string) \<Rightarrow>
   spell_checker \<Rightarrow> language_model \<Rightarrow> real \<Rightarrow> string list \<Rightarrow> py_error + string list" where
  "correct_each best sc m alpha [] = Inr []"
| "correct_each best sc m alpha (token # rest) =
     (case (if token \<in> vocab m then Inr token else get_correction best sc token [] alpha) of
        Inl e \<Rightarrow> Inl e
      | Inr corrected_word \<Rightarrow>
          (case correct_each best sc m alpha rest of
             Inl e \<Rightarrow> Inl e
           | Inr corrected_words \<Rightarrow> Inr (corrected_word # corrected_words)))"

text \<open>
  The loop over \<open>oov_indices\<close>: the context of index \<open>i\<close> is
  \<open>tokens[max(0, i - n + 1):i]\<close> joined by blanks; the first correction that differs
  from its token is stored and the joined sentence returned. \<open>None\<close> is the loop
  ending without a return.
\<close>

fun oov_loop ::
  "(string set \<Rightarrow> string \<Rightarrow> string \<Rightarrow> real \<Rightarrow> py_error + string) \<Rightarrow>
   spell_checker \<Rightarrow> nat \<Rightarrow> string list \<Rightarrow> real \<Rightarrow> nat list \<Rightarrow> py_error + string option" where
  "oov_loop best sc k tokens alpha [] = Inr None"
| "oov_loop best sc k tokens alpha (i # rest) =
     (let context_start = i + 1 - k;
          context = join '' '' (take (i - context_start) (drop context_start tokens))
      in case get_correction best sc (tokens ! i) context alpha of
           Inl e \<Rightarrow> Inl e
         | Inr corrected_word \<Rightarrow>
             if corrected_word \<noteq> tokens ! i
             then Inr (Some (join '' '' (tokens[i := corrected_word])))
             else oov_loop best sc k tokens alpha rest)"

text \<open>
  \<open>spell_check\<close> up to the sentence search: the result \<open>None\<close> stands for control
  reaching the search over candidate sentences (the lines after the loop over
  \<open>oov_indices\<close>), which is not modelled.
\<close>

definition spell_check ::
  "(string set \<Rightarrow> string \<Rightarrow> string \<Rightarrow> real \<Rightarrow> py_error + string) \<Rightarrow>
   spell_checker \<Rightarrow> string \<Rightarrow> real \<Rightarrow> py_error + string option" where
  "spell_check best sc text alpha =
     (let text = normalize_text text;
          tokens = split text
      in if tokens = [] then Inr (Some text)
         else
           (case lm sc of
              None \<Rightarrow> Inl AttributeError
            | Some m \<Rightarrow>
                if length tokens < n m then
                  (case correct_each best sc m alpha tokens of
                     Inl e \<Rightarrow> Inl e
                   | Inr corrected_words \<Rightarrow> Inr (Some (join '' '' corrected_words)))
                else
                  (let oov_indices = filter (\<lambda>i. tokens ! i \<notin> vocab m) [0..<length tokens]
                   in oov_loop best sc (n m) tokens alpha oov_indices)))"

subsection \<open>What the specification says of the scan for unknown tokens\<close>

text \<open>
  The correction of the token at position \<open>i\<close>, computed with the up to \<open>k - 1\<close>
  tokens before it as context; and the positions of the first run of consecutive
  tokens that are not in a vocabulary.
\<close>

definition correction_at ::
  "(string set \<Rightarrow> string \<Rightarrow> string \<Rightarrow> real \<Rightarrow> py_error + string) \<Rightarrow>
   spell_checker \<Rightarrow> nat \<Rightarrow> string list \<Rightarrow> real \<Rightarrow> nat \<Rightarrow> py_error + string" where
  "correction_at best sc k tokens alpha i =
     get_correction best sc (tokens ! i)
       (join '' '' (drop (i - (k - 1)) (take i tokens))) alpha"

definition first_oov_run :: "string set \<Rightarrow> string list \<Rightarrow> nat list" where
  "first_oov_run v tokens =
     (let start = length (takeWhile (\<lambda>t. t \<in> v) tokens);
          run = takeWhile (\<lambda>t. t \<notin> v) (drop start tokens)
      in [start..<start + length run])"

section \<open>A small trained model\<close>

text \<open>
  The model that \<open>build_model\<close> makes of the text \<open>the\<close>, starting from
  \<open>Language_Model(2)\<close>; the examples below are evaluated on it.
\<close>

definition the_model :: language_model where
  "the_model =
     \<lparr> n = 2, chars = False,
       char_pair = {#''th'', ''he''#},
       char_counts = {#CHR ''t'', CHR ''h'', CHR ''e''#},
       model_dict = {#[''<s>'', ''the''], [''the'', ''</s>'']#},
       suggestions = (\<lambda>_. {#})([''<s>''] := {#''the''#}, [''the''] := {#''</s>''#}),
       freq_tokens = {#''the''#}, token_count = 1, vocab = {''the''} \<rparr>"

text \<open>A spell checker holding that model, and one that also holds error tables.\<close>

definition the_checker :: spell_checker where
  "the_checker = \<lparr> lm = Some the_model, error_tables = None \<rparr>"

definition the_tables :: tables where
  "the_tables =
     \<lparr> insertion = [''#x'' \<mapsto> 3], deletion = [''#x'' \<mapsto> 2],
       substitution = [''ex'' \<mapsto> 5], transposition = [''ab'' \<mapsto> 7] \<rparr>"

definition the_full_checker :: spell_checker where
  "the_full_checker = \<lparr> lm = Some the_model, error_tables = Some the_tables \<rparr>"


section \<open>Lemmas about the language model\<close>

lemma length_pad: "length (pad k ts) = (k - 1) + length ts + 1"
  by (simp add: pad_def)

lemma window_nonempty:
  "0 < k \<Longrightarrow> i < length (pad k ts) + 1 - k \<Longrightarrow> take k (drop i (pad k ts)) \<noteq> []"
  by (auto simp: length_pad)

lemma tokens_of_empty: "tokens_of m [] = []"
  by (simp add: tokens_of_def split_def)

lemma tokens_of_chars: "chars m' = chars m \<Longrightarrow> tokens_of m' = tokens_of m"
  by (simp add: tokens_of_def fun_eq_iff)

lemma Language_Model_fields:
  "n (Language_Model k c) = k" "chars (Language_Model k c) = c"
  "model_dict (Language_Model k c) = {#}" "suggestions (Language_Model k c) ctx = {#}"
  "freq_tokens (Language_Model k c) = {#}" "char_counts (Language_Model k c) = {#}"
  "char_pair (Language_Model k c) = {#}" "vocab (Language_Model k c) = {}"
  by (simp_all add: Language_Model_def)

subsection \<open>evaluate\_text as a sum over the windows\<close>

lemma evaluate_loop_sum:
  "(\<And>i. i \<in> set js \<Longrightarrow>
      window_prob m s (take (n m) (drop i toks)) = Inr (f (take (n m) (drop i toks))))
   \<Longrightarrow> evaluate_loop m s toks js acc =
         Inr (acc + (\<Sum>i\<leftarrow>js. floored_log (f (take (n m) (drop i toks)))))"
  by (induction js arbitrary: acc) (auto simp: floored_log_def Let_def)

lemma smooth_laplace:
  "g \<noteq> [] \<Longrightarrow> 0 < card (vocab m) \<Longrightarrow> smooth m g = Inr (laplace m g)"
  by (simp add: smooth_def laplace_def py_truediv_def Let_def)

lemma raw_relative:
  "g \<noteq> [] \<Longrightarrow> window_prob m False g = Inr (relative_frequency m g)"
  by (simp add: window_prob_def relative_frequency_def py_truediv_def Let_def)

lemma evaluate_text_smoothed:
  assumes "0 < n m" and "tokens_of m (normalize_text text) = tokens" and "tokens \<noteq> []"
    and "\<exists>t \<in> set tokens. t \<notin># freq_tokens m" and "0 < card (vocab m)"
  shows "evaluate_text m text =
           Inr (Finite (\<Sum>g\<leftarrow>windows (n m) tokens. floored_log (laplace m g)))"
proof -
  have "evaluate_loop m True (pad (n m) tokens) [0..<length (pad (n m) tokens) + 1 - n m] 0
      = Inr (0 + (\<Sum>i\<leftarrow>[0..<length (pad (n m) tokens) + 1 - n m].
                    floored_log (laplace m (take (n m) (drop i (pad (n m) tokens))))))"
    using assms(1,5)
    by (intro evaluate_loop_sum) (simp add: window_prob_def smooth_laplace window_nonempty)
  then show ?thesis
    using assms by (simp add: evaluate_text_def Let_def windows_def comp_def)
qed

lemma evaluate_text_raw:
  assumes "0 < n m" and "tokens_of m (normalize_text text) = tokens" and "tokens \<noteq> []"
    and "\<forall>t \<in> set tokens. t \<in># freq_tokens m"
  shows "evaluate_text m text =
           Inr (Finite (\<Sum>g\<leftarrow>windows (n m) tokens. floored_log (relative_frequency m g)))"
proof -
  have "evaluate_loop m False (pad (n m) tokens) [0..<length (pad (n m) tokens) + 1 - n m] 0
      = Inr (0 + (\<Sum>i\<leftarrow>[0..<length (pad (n m) tokens) + 1 - n m].
                    floored_log (relative_frequency m (take (n m) (drop i (pad (n m) tokens))))))"
    using assms(1)
    by (intro evaluate_loop_sum) (simp add: raw_relative window_nonempty)
  then show ?thesis
    using assms by (simp add: evaluate_text_def Let_def windows_def comp_def)
qed

lemma evaluate_text_neginf:
  "evaluate_text m text = Inr NegInf \<longleftrightarrow> tokens_of m (normalize_text text) = []"
  by (auto simp: evaluate_text_def Let_def split: sum.splits)

subsection \<open>What one call of build\_model adds\<close>

lemma build_model_fields:
  assumes "build_model m text = Inr m'"
  shows "n m' = n m" and "chars m' = chars m"
    and "freq_tokens m' = freq_tokens m + mset (tokens_of m (normalize_text text))"
    and "vocab m' = vocab m \<union> set_mset (freq_tokens m')"
    and "token_count m' = size (freq_tokens m')"
  using assms
  by (auto simp: build_model_def Let_def split: prod.splits if_splits)

lemma build_model_returns:
  "normalize_text text \<noteq> [] \<Longrightarrow> \<exists>m'. build_model m text = Inr m'"
  by (simp add: build_model_def Let_def split: prod.splits)

lemma build_model_nonempty:
  "build_model m text = Inr m' \<Longrightarrow> normalize_text text \<noteq> []"
  by (auto simp: build_model_def Let_def split: prod.splits if_splits)

lemma fold_count_chars:
  "fold (\<lambda>i (cc, cp). (add_mset (f i) cc, add_mset (g i) cp)) js (cc, cp) =
     (cc + mset (map f js), cp + mset (map g js))"
  by (induction js arbitrary: cc cp) auto

lemma count_chars_eq:
  "count_chars t (cc, cp) =
     (cc + mset (map (\<lambda>i. t ! i) [0..<length t - 1]),
      cp + mset (map (\<lambda>i. take 2 (drop i t)) [0..<length t - 1]))"
  unfolding count_chars_def by (rule fold_count_chars)

lemma count_ngram_apply:
  "count_ngram k toks i (md, sg) =
     (add_mset (ngram_at k toks i) md,
      sg(butlast (ngram_at k toks i) :=
           add_mset (next_token_at toks i) (sg (butlast (ngram_at k toks i)))))"
  by (simp add: count_ngram_def Let_def)

lemma fold_count_ngram:
  "fold (count_ngram k toks) js (md, sg) =
     (md + mset (map (ngram_at k toks) js),
      \<lambda>ctx. sg ctx + mset (map (next_token_at toks)
                             (filter (\<lambda>i. butlast (ngram_at k toks i) = ctx) js)))"
proof (induction js arbitrary: md sg)
  case Nil
  show ?case by simp
next
  case (Cons j js)
  show ?case
    by (simp add: Cons.IH count_ngram_apply fun_eq_iff)
qed

lemma build_model_tables:
  assumes "build_model m text = Inr m'"
  defines "t \<equiv> normalize_text text"
  defines "p \<equiv> pad (n m) (tokens_of m (normalize_text text))"
  defines "js \<equiv> [int (n m) - 1 .. int (length p) - 1]"
  shows "model_dict m' = model_dict m + mset (map (ngram_at (n m) p) js)"
    and "suggestions m' ctx = suggestions m ctx +
           mset (map (next_token_at p) (filter (\<lambda>i. butlast (ngram_at (n m) p i) = ctx) js))"
    and "char_counts m' =
           char_counts m + mset (map (\<lambda>i. t ! i) [0..<length t - 1]) + {#last t#}"
    and "char_pair m' = char_pair m + mset (map (\<lambda>i. take 2 (drop i t)) [0..<length t - 1])"
  using assms(1) unfolding t_def p_def js_def
  by (auto simp: build_model_def Let_def count_chars_eq count_ngrams_def fold_count_ngram
      split: prod.splits if_splits)

lemma build_model_delta:
  assumes "build_model m text = Inr m'"
  shows "\<exists>a. build_model (Language_Model (n m) (chars m)) text = Inr a \<and>
           model_dict m' = model_dict m + model_dict a \<and>
           (\<forall>ctx. suggestions m' ctx = suggestions m ctx + suggestions a ctx) \<and>
           freq_tokens m' = freq_tokens m + freq_tokens a \<and>
           char_counts m' = char_counts m + char_counts a \<and>
           char_pair m' = char_pair m + char_pair a \<and>
           vocab m' = vocab m \<union> set_mset (freq_tokens m) \<union> vocab a"
proof -
  let ?f = "Language_Model (n m) (chars m)"
  obtain a where a: "build_model ?f text = Inr a"
    using build_model_returns build_model_nonempty [OF assms] by blast
  have tk: "tokens_of ?f = tokens_of m"
    by (rule tokens_of_chars) (simp add: Language_Model_fields)
  have "model_dict m' = model_dict m + model_dict a"
    using build_model_tables(1) [OF assms] build_model_tables(1) [OF a]
    by (simp add: Language_Model_fields tk)
  moreover have "\<forall>ctx. suggestions m' ctx = suggestions m ctx + suggestions a ctx"
    using build_model_tables(2) [OF assms] build_model_tables(2) [OF a]
    by (simp add: Language_Model_fields tk)
  moreover have "freq_tokens m' = freq_tokens m + freq_tokens a"
    using build_model_fields(3) [OF assms] build_model_fields(3) [OF a]
    by (simp add: Language_Model_fields tk)
  moreover have "char_counts m' = char_counts m + char_counts a"
    using build_model_tables(3) [OF assms] build_model_tables(3) [OF a]
    by (simp add: Language_Model_fields)
  moreover have "char_pair m' = char_pair m + char_pair a"
    using build_model_tables(4) [OF assms] build_model_tables(4) [OF a]
    by (simp add: Language_Model_fields)
  moreover have "vocab m' = vocab m \<union> set_mset (freq_tokens m) \<union> vocab a"
    using build_model_fields(3,4) [OF assms] build_model_fields(3,4) [OF a]
    by (auto simp: Language_Model_fields tk)
  ultimately show ?thesis using a by blast
qed

lemma build_model_vocab_mono: "build_model m text = Inr m' \<Longrightarrow> vocab m \<subseteq> vocab m'"
  using build_model_fields(4) by blast

lemma built_from_vocab_mono: "built_from m m' \<Longrightarrow> vocab m \<subseteq> vocab m'"
  by (induction rule: built_from.induct) (auto dest: build_model_vocab_mono)

subsection \<open>The small trained model\<close>

lemma normalize_the: "normalize_text ''the'' = ''the''"
  by code_simp

lemma normalize_the_dog: "normalize_text ''the dog'' = ''the dog''"
  by code_simp

lemma split_the: "split ''the'' = [''the'']"
  by code_simp

lemma split_the_dog: "split ''the dog'' = [''the'', ''dog'']"
  by code_simp

lemma build_model_the: "build_model (Language_Model 2 False) ''the'' = Inr the_model"
  by (simp add: build_model_def normalize_the split_the Let_def tokens_of_def
      Language_Model_def count_chars_def pad_def count_ngrams_def count_ngram_def
      ngram_at_def next_token_at_def upto.simps the_model_def numeral_2_eq_2 upt_rec)

lemma reachable_the_model: "reachable the_model"
  using reachable.built [OF reachable.fresh build_model_the] .

subsection \<open>The count of an n-gram never exceeds the total of its context\<close>

lemma next_token_is_last:
  assumes "int k - 1 \<le> i" and "i \<le> int (length toks) - 1" and "ngram_at k toks i \<noteq> []"
  shows "next_token_at toks i = last (ngram_at k toks i)"
proof -
  from assms(3) have k: "0 < k" by (auto simp: ngram_at_def)
  with assms(1) have i0: "0 \<le> i" by simp
  define j where "j = nat (i - int k + 1)"
  have j: "j + k = nat i + 1" using k assms(1) i0 by (simp add: j_def nat_add_distrib nat_diff_distrib)
  have len: "nat i < length toks" using assms(2) i0 by simp
  have l: "length (take k (drop j toks)) = k" using j len by simp
  have "last (take k (drop j toks)) = take k (drop j toks) ! (k - 1)"
    using l k by (simp add: last_conv_nth)
  also have "\<dots> = toks ! (j + (k - 1))" using k j len by simp
  also have "j + (k - 1) = nat i" using j k by simp
  finally show ?thesis using i0 by (simp add: next_token_at_def ngram_at_def j_def)
qed

lemma count_ngram_keeps_order:
  assumes "\<forall>g. g \<noteq> [] \<longrightarrow> count md g \<le> count (sg (butlast g)) (last g)"
    and "ngram_at k toks i \<noteq> [] \<longrightarrow> next_token_at toks i = last (ngram_at k toks i)"
    and "count_ngram k toks i (md, sg) = (md', sg')"
  shows "\<forall>g. g \<noteq> [] \<longrightarrow> count md' g \<le> count (sg' (butlast g)) (last g)"
proof (intro allI impI)
  fix g :: "string list"
  assume g: "g \<noteq> []"
  from assms(3) have md': "md' = add_mset (ngram_at k toks i) md"
    and sg': "sg' = sg(butlast (ngram_at k toks i) :=
                 add_mset (next_token_at toks i) (sg (butlast (ngram_at k toks i))))"
    by (simp_all add: count_ngram_apply)
  show "count md' g \<le> count (sg' (butlast g)) (last g)"
  proof (cases "g = ngram_at k toks i")
    case True
    with g assms(1,2) show ?thesis by (simp add: md' sg')
  next
    case False
    have "count md' g = count md g" using False by (simp add: md')
    also have "\<dots> \<le> count (sg (butlast g)) (last g)" using assms(1) g by simp
    also have "\<dots> \<le> count (sg' (butlast g)) (last g)" by (simp add: sg')
    finally show ?thesis .
  qed
qed

lemma fold_count_ngram_keeps_order:
  assumes "\<forall>g. g \<noteq> [] \<longrightarrow> count md g \<le> count (sg (butlast g)) (last g)"
    and "\<forall>i \<in> set js. int k - 1 \<le> i \<and> i \<le> int (length toks) - 1"
    and "fold (count_ngram k toks) js (md, sg) = (md', sg')"
  shows "\<forall>g. g \<noteq> [] \<longrightarrow> count md' g \<le> count (sg' (butlast g)) (last g)"
  using assms
proof (induction js arbitrary: md sg)
  case Nil
  then show ?case by simp
next
  case (Cons j js)
  obtain md1 sg1 where s: "count_ngram k toks j (md, sg) = (md1, sg1)"
    by (cases "count_ngram k toks j (md, sg)")
  have "\<forall>g. g \<noteq> [] \<longrightarrow> count md1 g \<le> count (sg1 (butlast g)) (last g)"
    using count_ngram_keeps_order [OF Cons.prems(1) _ s] next_token_is_last Cons.prems(2)
    by simp
  then show ?case
    using Cons.IH [of md1 sg1] Cons.prems(2,3) s by simp
qed

lemma build_model_keeps_order:
  assumes "\<forall>g. g \<noteq> [] \<longrightarrow> count (model_dict m) g \<le> count (suggestions m (butlast g)) (last g)"
    and "build_model m text = Inr m'"
  shows "\<forall>g. g \<noteq> [] \<longrightarrow> count (model_dict m') g \<le> count (suggestions m' (butlast g)) (last g)"
proof -
  let ?p = "pad (n m) (tokens_of m (normalize_text text))"
  obtain md sg where f: "count_ngrams (n m) ?p (model_dict m, suggestions m) = (md, sg)"
    by (cases "count_ngrams (n m) ?p (model_dict m, suggestions m)")
  have "\<forall>g. g \<noteq> [] \<longrightarrow> count md g \<le> count (sg (butlast g)) (last g)"
    using fold_count_ngram_keeps_order [OF assms(1) _ f [unfolded count_ngrams_def]] by simp
  moreover have "model_dict m' = md" "suggestions m' = sg"
    using assms(2) f by (auto simp: build_model_def Let_def split: prod.splits if_splits)
  ultimately show ?thesis by simp
qed

lemma reachable_invariant:
  "reachable m \<Longrightarrow>
     (\<forall>g. g \<noteq> [] \<longrightarrow> count (model_dict m) g \<le> count (suggestions m (butlast g)) (last g)) \<and>
     vocab m = set_mset (freq_tokens m)"
proof (induction rule: reachable.induct)
  case (fresh k c)
  show ?case by (simp add: Language_Model_fields)
next
  case (built a t b)
  then show ?case
    using build_model_keeps_order [of a t b] build_model_fields(3,4) [of a t b]
    by auto
qed

lemma laplace_bounds:
  assumes "count (model_dict m) g \<le> count (suggestions m (butlast g)) (last g)"
    and "finite (vocab m)" and "vocab m \<noteq> {}"
  shows "0 < laplace m g \<and> laplace m g \<le> 1"
proof -
  have v: "1 \<le> card (vocab m)" using assms(2,3) by (simp add: Suc_leI card_gt_0_iff)
  have "count (suggestions m (butlast g)) (last g) \<le> size (suggestions m (butlast g))"
    by (rule count_le_size)
  with assms(1) v
  have "real (count (model_dict m) g) + 1 \<le>
          real (size (suggestions m (butlast g))) + real (card (vocab m))"
    by linarith
  moreover have "0 < real (size (suggestions m (butlast g))) + real (card (vocab m))"
    using v by linarith
  ultimately show ?thesis
    by (simp add: laplace_def)
qed

section \<open>Lemmas about the candidate words\<close>

lemma set_splits: "set (splits w) = (\<lambda>i. (take i w, drop i w)) ` {i. i \<le> length w}"
  unfolding splits_def set_map set_upt by (rule arg_cong [where f = "image _"]) auto

lemma in_comprehension1:
  "x \<in> set [f L R. (L, R) \<leftarrow> splits w, P R] \<longleftrightarrow>
     (\<exists>i. i \<le> length w \<and> P (drop i w) \<and> x = f (take i w) (drop i w))"
  by (auto simp: set_splits)

lemma in_comprehension2:
  "x \<in> set [f L R c. (L, R) \<leftarrow> splits w, P R, c \<leftarrow> cs] \<longleftrightarrow>
     (\<exists>i c. i \<le> length w \<and> P (drop i w) \<and> c \<in> set cs \<and> x = f (take i w) (drop i w) c)"
  by (auto simp: set_splits)

lemma in_deletes:
  "x \<in> set (deletes w) \<longleftrightarrow> (\<exists>i. i < length w \<and> x = take i w @ drop (Suc i) w)"
proof -
  have "\<And>i. (i \<le> length w \<and> drop i w \<noteq> [] \<and> x = take i w @ drop 1 (drop i w)) =
             (i < length w \<and> x = take i w @ drop (Suc i) w)"
    by auto
  then show ?thesis
    unfolding deletes_def in_comprehension1 by simp
qed

lemma in_transposes:
  "x \<in> set (transposes w) \<longleftrightarrow>
     (\<exists>i. Suc i < length w \<and> x = take i w @ [w ! Suc i, w ! i] @ drop (Suc (Suc i)) w)"
proof -
  have "\<And>i. (i \<le> length w \<and> 1 < length (drop i w) \<and>
               x = take i w @ [drop i w ! 1] @ [drop i w ! 0] @ drop 2 (drop i w)) =
             (Suc i < length w \<and> x = take i w @ [w ! Suc i, w ! i] @ drop (Suc (Suc i)) w)"
    by (auto simp: add.commute)
  then show ?thesis
    unfolding transposes_def in_comprehension1 by simp
qed

lemma in_replaces:
  "x \<in> set (replaces w) \<longleftrightarrow>
     (\<exists>i c. i < length w \<and> c \<in> set letters \<and> x = take i w @ [c] @ drop (Suc i) w)"
proof -
  have "\<And>i c. (i \<le> length w \<and> drop i w \<noteq> [] \<and> c \<in> set letters \<and>
                 x = take i w @ [c] @ drop 1 (drop i w)) =
               (i < length w \<and> c \<in> set letters \<and> x = take i w @ [c] @ drop (Suc i) w)"
    by auto
  then show ?thesis
    unfolding replaces_def in_comprehension2 by simp
qed

lemma in_inserts:
  "x \<in> set (inserts w) \<longleftrightarrow>
     (\<exists>i c. i \<le> length w \<and> c \<in> set letters \<and> x = take i w @ [c] @ drop i w)"
  unfolding inserts_def by (auto simp: set_splits)

lemma edits1_iff:
  "x \<in> edits1 w \<longleftrightarrow>
     (\<exists>i. i < length w \<and> x = take i w @ drop (Suc i) w) \<or>
     (\<exists>i. Suc i < length w \<and> x = take i w @ [w ! Suc i, w ! i] @ drop (Suc (Suc i)) w) \<or>
     (\<exists>i c. i < length w \<and> c \<in> set letters \<and> x = take i w @ [c] @ drop (Suc i) w) \<or>
     (\<exists>i c. i \<le> length w \<and> c \<in> set letters \<and> x = take i w @ [c] @ drop i w)"
  unfolding edits1_def set_append Un_iff in_deletes in_transposes in_replaces in_inserts
  by (rule refl)

lemma replace_is_word:
  assumes "i < length w"
  shows "w = take i w @ [c] @ drop (Suc i) w \<longleftrightarrow> c = w ! i"
proof -
  have "take i w @ [w ! i] @ drop (Suc i) w = w"
    using assms by (simp add: id_take_nth_drop [symmetric])
  then have "w = take i w @ [c] @ drop (Suc i) w \<longleftrightarrow>
             take i w @ [w ! i] @ drop (Suc i) w = take i w @ [c] @ drop (Suc i) w"
    by simp
  then show ?thesis by auto
qed

lemma transpose_is_word:
  assumes "Suc i < length w"
  shows "w = take i w @ [w ! Suc i, w ! i] @ drop (Suc (Suc i)) w \<longleftrightarrow> w ! i = w ! Suc i"
proof -
  have "drop i w = w ! i # drop (Suc i) w"
    using assms by (simp add: Cons_nth_drop_Suc)
  moreover have "drop (Suc i) w = w ! Suc i # drop (Suc (Suc i)) w"
    using assms by (simp add: Cons_nth_drop_Suc)
  ultimately have "take i w @ [w ! i, w ! Suc i] @ drop (Suc (Suc i)) w = w"
    by (metis append_Cons append_Nil append_take_drop_id)
  then have "w = take i w @ [w ! Suc i, w ! i] @ drop (Suc (Suc i)) w \<longleftrightarrow>
        take i w @ [w ! i, w ! Suc i] @ drop (Suc (Suc i)) w =
        take i w @ [w ! Suc i, w ! i] @ drop (Suc (Suc i)) w"
    by simp
  then show ?thesis by auto
qed

lemma delete_not_word: "i < length w \<Longrightarrow> w \<noteq> take i w @ drop (Suc i) w"
proof
  assume a: "i < length w" and e: "w = take i w @ drop (Suc i) w"
  have "length (take i w @ drop (Suc i) w) = length w - 1"
    using a by (simp add: min_def)
  with e [symmetric] have "length w = length w - 1" by simp
  with a show False by simp
qed

lemma insert_not_word: "i \<le> length w \<Longrightarrow> w \<noteq> take i w @ [c] @ drop i w"
proof
  assume a: "i \<le> length w" and e: "w = take i w @ [c] @ drop i w"
  have "length (take i w @ [c] @ drop i w) = length w + 1"
    using a by (simp add: min_def)
  with e [symmetric] show False by simp
qed

lemma edits1_length:
  assumes "x \<in> edits1 w"
  shows "length w \<le> length x + 1 \<and> length x \<le> length w + 1"
  using assms unfolding edits1_iff
  by (elim disjE exE conjE) (auto simp: min_def)

lemma edits2_length:
  assumes "x \<in> edits2 w"
  shows "length w \<le> length x + 2"
proof -
  from assms obtain e where "e \<in> edits1 w" "x \<in> edits1 e"
    unfolding edits2_def by blast
  then have "length w \<le> length e + 1" "length e \<le> length x + 1"
    using edits1_length by blast+
  then show ?thesis by simp
qed

lemma known_some: "lm sc = Some m \<Longrightarrow> known sc ws = Inr (ws \<inter> vocab m)"
  by (auto simp: known_def)

lemma the_in_edits1_tha: "''the'' \<in> edits1 ''tha''"
proof -
  have "''the'' = take 2 ''tha'' @ [CHR ''e''] @ drop (Suc 2) ''tha''" by simp
  moreover have "(2::nat) < length ''tha''" by simp
  moreover have "CHR ''e'' \<in> set letters" by (simp add: letters_def)
  ultimately show ?thesis unfolding edits1_iff by blast
qed

lemma candidates_tha: "get_candidates the_checker ''tha'' = Inr {''the''}"
proof -
  have l: "lm the_checker = Some the_model" by (simp add: the_checker_def)
  have v: "vocab the_model = {''the''}" by (simp add: the_model_def)
  have "edits1 ''tha'' \<inter> {''the''} = {''the''}" using the_in_edits1_tha by blast
  then show ?thesis
    by (simp add: get_candidates_def known_some [OF l] v)
qed

lemma candidates_zzzzzz: "get_candidates the_checker ''zzzzzz'' = Inr {''zzzzzz''}"
proof -
  have l: "lm the_checker = Some the_model" by (simp add: the_checker_def)
  have v: "vocab the_model = {''the''}" by (simp add: the_model_def)
  have "''the'' \<notin> edits1 ''zzzzzz''" using edits1_length [of "''the''" "''zzzzzz''"] by auto
  then have e1: "edits1 ''zzzzzz'' \<inter> {''the''} = {}" by blast
  have "''the'' \<notin> edits2 ''zzzzzz''" using edits2_length [of "''the''" "''zzzzzz''"] by auto
  then have e2: "edits2 ''zzzzzz'' \<inter> {''the''} = {}" by blast
  show ?thesis
    by (simp add: get_candidates_def known_some [OF l] v e1 e2)
qed

lemma edits1_self_iff:
  "w \<in> edits1 w \<longleftrightarrow>
     (\<exists>c \<in> set w. c \<in> set letters) \<or> (\<exists>i. Suc i < length w \<and> w ! i = w ! Suc i)"
    (is "_ \<longleftrightarrow> ?rhs")
proof
  assume "w \<in> edits1 w"
  then have
    "(\<exists>i. i < length w \<and> w = take i w @ drop (Suc i) w) \<or>
     (\<exists>i. Suc i < length w \<and> w = take i w @ [w ! Suc i, w ! i] @ drop (Suc (Suc i)) w) \<or>
     (\<exists>i c. i < length w \<and> c \<in> set letters \<and> w = take i w @ [c] @ drop (Suc i) w) \<or>
     (\<exists>i c. i \<le> length w \<and> c \<in> set letters \<and> w = take i w @ [c] @ drop i w)"
    unfolding edits1_iff .
  then show ?rhs
  proof (elim disjE exE conjE)
    fix i
    assume "i < length w" and e: "w = take i w @ drop (Suc i) w"
    from delete_not_word [OF this(1)] e show ?rhs by (rule notE)
  next
    fix i
    assume a: "Suc i < length w"
      and e: "w = take i w @ [w ! Suc i, w ! i] @ drop (Suc (Suc i)) w"
    from transpose_is_word [OF a] e have "w ! i = w ! Suc i" by (rule iffD1)
    with a show ?rhs by blast
  next
    fix i c
    assume a: "i < length w" and c: "c \<in> set letters"
      and e: "w = take i w @ [c] @ drop (Suc i) w"
    from replace_is_word [OF a] e have "c = w ! i" by (rule iffD1)
    with a c have "w ! i \<in> set w" "w ! i \<in> set letters" by simp_all
    then show ?rhs by blast
  next
    fix i c
    assume "i \<le> length w" and e: "w = take i w @ [c] @ drop i w"
    from insert_not_word [OF this(1)] e show ?rhs by (rule notE)
  qed
next
  assume ?rhs
  then show "w \<in> edits1 w"
  proof
    assume "\<exists>c \<in> set w. c \<in> set letters"
    then obtain c where c: "c \<in> set w" "c \<in> set letters" by blast
    from c(1) obtain i where "i < length w" "w ! i = c"
      unfolding in_set_conv_nth by blast
    with c(2) have i: "i < length w" "w ! i \<in> set letters" by simp_all
    have "w = take i w @ [w ! i] @ drop (Suc i) w"
      using replace_is_word [OF i(1), of "w ! i"] by simp
    with i show ?thesis
      unfolding edits1_iff by blast
  next
    assume "\<exists>i. Suc i < length w \<and> w ! i = w ! Suc i"
    then obtain i where i: "Suc i < length w" "w ! i = w ! Suc i" by blast
    have "w = take i w @ [w ! Suc i, w ! i] @ drop (Suc (Suc i)) w"
      using transpose_is_word [OF i(1)] i(2) by simp
    with i show ?thesis
      unfolding edits1_iff by blast
  qed
qed

section \<open>Lemmas about spell\_check\<close>

lemma context_slice:
  "take (i - (i + 1 - k)) (drop (i + 1 - k) tokens) = drop (i - (k - 1)) (take i tokens)"
proof -
  have "i + 1 - k = i - (k - 1) \<or> (k = 0 \<and> i + 1 - k = Suc i)" by arith
  then show ?thesis
  proof
    assume e: "i + 1 - k = i - (k - 1)"
    show ?thesis unfolding e by (simp add: drop_take)
  next
    assume "k = 0 \<and> i + 1 - k = Suc i"
    then show ?thesis by simp
  qed
qed

lemma oov_loop_Cons:
  "oov_loop best sc k tokens alpha (i # rest) =
     (case correction_at best sc k tokens alpha i of
        Inl e \<Rightarrow> Inl e
      | Inr c \<Rightarrow>
          if c \<noteq> tokens ! i then Inr (Some (join '' '' (tokens[i := c])))
          else oov_loop best sc k tokens alpha rest)"
  unfolding oov_loop.simps Let_def correction_at_def context_slice by (rule refl)

lemma oov_loop_find:
  "oov_loop best sc k tokens alpha js =
     (case find (\<lambda>i. correction_at best sc k tokens alpha i \<noteq> Inr (tokens ! i)) js of
        None \<Rightarrow> Inr None
      | Some i \<Rightarrow>
          (case correction_at best sc k tokens alpha i of
             Inl e \<Rightarrow> Inl e
           | Inr c \<Rightarrow> Inr (Some (join '' '' (tokens[i := c])))))"
  by (induction js) (auto simp: oov_loop_Cons simp del: oov_loop.simps(2) split: sum.splits)

lemma find_filter: "find p (filter q xs) = find (\<lambda>x. q x \<and> p x) xs"
  by (induction xs) auto

lemma spell_check_scan:
  assumes "lm sc = Some m" and "split (normalize_text text) = tokens"
    and "tokens \<noteq> []" and "n m \<le> length tokens"
  shows "spell_check best sc text alpha =
     (case find (\<lambda>i. tokens ! i \<notin> vocab m \<and>
                      correction_at best sc (n m) tokens alpha i \<noteq> Inr (tokens ! i))
             [0..<length tokens] of
        None \<Rightarrow> Inr None
      | Some i \<Rightarrow>
          (case correction_at best sc (n m) tokens alpha i of
             Inl e \<Rightarrow> Inl e
           | Inr c \<Rightarrow> Inr (Some (join '' '' (tokens[i := c])))))"
  using assms by (simp add: spell_check_def Let_def oov_loop_find find_filter)

lemma max_like_singleton: "max_like best \<Longrightarrow> best {x} w c a = Inr x"
  unfolding max_like_def by (metis insert_not_empty singletonD)

lemma max_like_exists: "\<exists>best. max_like best"
proof
  show "max_like (\<lambda>S w c a. Inr (SOME x. x \<in> S))"
    unfolding max_like_def by (auto intro: someI_ex)
qed

lemma correction_zzzzzz:
  "max_like best \<Longrightarrow> get_correction best the_checker ''zzzzzz'' c a = Inr ''zzzzzz''"
  by (simp add: get_correction_def candidates_zzzzzz max_like_singleton)

lemma correction_tha:
  "max_like best \<Longrightarrow> get_correction best the_checker ''tha'' c a = Inr ''the''"
  by (simp add: get_correction_def candidates_tha max_like_singleton)

lemma normalize_zzzzzz_the_tha: "normalize_text ''zzzzzz the tha'' = ''zzzzzz the tha''"
  by code_simp

lemma split_zzzzzz_the_tha: "split ''zzzzzz the tha'' = [''zzzzzz'', ''the'', ''tha'']"
  by code_simp

lemma upt_3: "[0..<3] = [0, 1, 2]"
  by (simp add: upt_rec)

lemma spell_check_zzzzzz_the_tha:
  assumes "max_like best"
  shows "spell_check best the_checker ''zzzzzz the tha'' alpha = Inr (Some ''zzzzzz the the'')"
proof -
  have l: "lm the_checker = Some the_model" by (simp add: the_checker_def)
  have s: "split (normalize_text ''zzzzzz the tha'') = [''zzzzzz'', ''the'', ''tha'']"
    by (simp add: normalize_zzzzzz_the_tha split_zzzzzz_the_tha)
  have k: "n the_model \<le> length [''zzzzzz'', ''the'', ''tha'']" by (simp add: the_model_def)
  have v: "vocab the_model = {''the''}" by (simp add: the_model_def)
  show ?thesis
    unfolding spell_check_scan [OF l s _ k, simplified]
    by (simp add: upt_3 v correction_at_def correction_zzzzzz [OF assms] correction_tha [OF assms])
qed

section \<open>Lemmas about the error model\<close>

lemma ratio_or_zero_returns: "\<exists>r. ratio_or_zero p f = Inr r"
  by (simp add: ratio_or_zero_def py_truediv_def)

lemma ratio_or_zero_0: "ratio_or_zero p 0 = Inr 0"
  by (simp add: ratio_or_zero_def)

lemma deletion_cases:
  assumes "error_tables sc = Some t" and "lm sc = Some m"
  shows "deletion_probability sc mw ow =
     (if length mw \<noteq> length ow + 1 then Inr 0
      else case find (removal_point mw ow) [0..<length mw] of
             None \<Rightarrow> Inr 0
           | Some idx \<Rightarrow> ratio_or_zero (dict_get (deletion t) (edit_pair mw idx) 0)
                           (count (char_pair m) (edit_pair mw idx)))"
  using assms by (simp add: deletion_probability_def Let_def split: option.splits)

lemma insertion_cases:
  assumes "error_tables sc = Some t" and "lm sc = Some m"
  shows "insertion_probability sc mw ow =
     (if length mw + 1 \<noteq> length ow then Inr 0
      else case find (removal_point ow mw) [0..<length ow] of
             None \<Rightarrow> Inr 0
           | Some idx \<Rightarrow> ratio_or_zero (dict_get (insertion t) (edit_pair ow idx) 0)
                           (count (char_counts m) (edit_pair ow idx ! 0)))"
  using assms by (simp add: insertion_probability_def Let_def split: option.splits)

lemma substitution_cases:
  assumes "error_tables sc = Some t" and "lm sc = Some m"
  shows "substitution_probability sc mw ow =
     (if length mw \<noteq> length ow then Inr 0
      else case find (\<lambda>(mod_char, orig_char). mod_char \<noteq> orig_char) (zip mw ow) of
             None \<Rightarrow> Inr 0
           | Some (mod_char, orig_char) \<Rightarrow>
               ratio_or_zero (dict_get (substitution t) [orig_char, mod_char] 0)
                 (count (char_counts m) mod_char))"
  using assms by (simp add: substitution_probability_def Let_def split: option.splits prod.splits)

lemma transposition_cases:
  assumes "error_tables sc = Some t" and "lm sc = Some m"
  shows "transposition_probability sc mw ow =
     (if length mw \<noteq> length ow then Inr 0
      else case find (transposition_point mw ow) [0..<length ow - 1] of
             None \<Rightarrow> Inr (1 / 10 ^ 8)
           | Some i \<Rightarrow> ratio_or_zero (dict_get (transposition t) (take 2 (drop i ow)) 0)
                         (count (char_pair m) (take 2 (drop i ow))))"
  using assms by (simp add: transposition_probability_def Let_def split: option.splits)

lemma the_full_checker_fields:
  "error_tables the_full_checker = Some the_tables" "lm the_full_checker = Some the_model"
  by (simp_all add: the_full_checker_def)

section \<open>Lemmas about normalize\_text and the vocabulary\<close>

lemma runs_nonempty:
  "cur \<noteq> [] \<or> (\<exists>c \<in> set s. p c) \<Longrightarrow> runs p cur s \<noteq> []"
  by (induction s arbitrary: cur) auto

lemma runs_words:
  "w \<in> set (runs p cur s) \<Longrightarrow> \<forall>c \<in> set cur. p c \<Longrightarrow> w \<noteq> [] \<and> (\<forall>c \<in> set w. p c)"
proof (induction s arbitrary: cur)
  case Nil
  then show ?case by (auto split: if_splits)
next
  case (Cons a s)
  show ?case
  proof (cases "p a")
    case True
    with Cons.prems have "w \<in> set (runs p (cur @ [a]) s)" "\<forall>c \<in> set (cur @ [a]). p c"
      by auto
    then show ?thesis by (rule Cons.IH)
  next
    case False
    with Cons.prems have "w \<in> set (if cur = [] then [] else [cur]) \<or> w \<in> set (runs p [] s)"
      by auto
    then show ?thesis
    proof
      assume "w \<in> set (if cur = [] then [] else [cur])"
      with Cons.prems(2) show ?thesis by (auto split: if_splits)
    next
      assume "w \<in> set (runs p [] s)"
      then show ?thesis by (rule Cons.IH) simp
    qed
  qed
qed

lemma join_hd: "ws \<noteq> [] \<Longrightarrow> set (hd ws) \<subseteq> set (join sep ws)"
  by (induction sep ws rule: join.induct) auto

lemma word_char_not_space: "is_word_char c \<Longrightarrow> \<not> is_space c"
  by (auto simp: is_word_char_def is_space_def Let_def)

lemma normalize_text_has_word:
  assumes "normalize_text t \<noteq> []"
  shows "\<exists>c \<in> set (normalize_text t). \<not> is_space c"
proof -
  obtain ws where ws: "normalize_text t = join '' '' ws"
    and r: "\<exists>x. ws = runs is_word_char [] x"
    by (auto simp: normalize_text_def Let_def)
  from assms ws have ne: "ws \<noteq> []" by auto
  then have "hd ws \<in> set ws" by simp
  with r have "hd ws \<noteq> [] \<and> (\<forall>c \<in> set (hd ws). is_word_char c)"
    using runs_words [of "hd ws" is_word_char "[]"] by auto
  then obtain c where "c \<in> set (hd ws)" "is_word_char c"
    by (cases "hd ws") auto
  with join_hd [OF ne, of "'' ''"] ws show ?thesis
    using word_char_not_space by auto
qed

lemma tokens_of_nonempty:
  assumes "normalize_text t \<noteq> []"
  shows "tokens_of m (normalize_text t) \<noteq> []"
proof (cases "chars m")
  case True
  with assms show ?thesis by (simp add: tokens_of_def)
next
  case False
  then show ?thesis
    using runs_nonempty [of "[]" "normalize_text t" "\<lambda>c. \<not> is_space c"]
      normalize_text_has_word [OF assms]
    by (simp add: tokens_of_def split_def)
qed

lemma build_model_vocab_nonempty:
  assumes "build_model m t = Inr m'"
  shows "vocab m' \<noteq> {}"
proof -
  have "tokens_of m (normalize_text t) \<noteq> []"
    using tokens_of_nonempty build_model_nonempty [OF assms] by blast
  then have "freq_tokens m' \<noteq> {#}"
    using build_model_fields(3) [OF assms] by simp
  then show ?thesis
    using build_model_fields(4) [OF assms] by auto
qed

lemma reachable_vocab_empty_iff:
  assumes "reachable m"
  shows "vocab m = {} \<longleftrightarrow> (\<exists>k c. m = Language_Model k c)"
  using assms
proof (cases rule: reachable.cases)
  case (fresh k c)
  then show ?thesis by (auto simp: Language_Model_fields)
next
  case (built a t)
  then have "vocab m \<noteq> {}" using build_model_vocab_nonempty by blast
  moreover have "\<And>k c. vocab (Language_Model k c) = {}" by (simp add: Language_Model_fields)
  ultimately show ?thesis by metis
qed

section \<open>Claims\<close>

text \<open>
  C10. For every text whose normalized form is the empty string, \<open>build_model\<close> raises
  an IndexError (from reading the last character of the normalized text) instead of
  completing.
\<close>

theorem build_model_empty_raises:
  "normalize_text text = [] \<Longrightarrow> build_model m text = Inl IndexError"
  by (simp add: build_model_def Let_def split: prod.splits)

theorem build_model_empty_raises_witness:
  "normalize_text ''!!! 123'' = [] \<and> build_model (Language_Model 3 False) ''!!! 123'' = Inl IndexError"
proof -
  have h: "normalize_text ''!!! 123'' = []"
    by (simp add: normalize_text_def ascii_lower_def url_starts_def is_space_def
        is_punctuation_def is_digit_def is_word_char_def Let_def)
  show ?thesis using h build_model_empty_raises [OF h] by simp
qed

text \<open>
  C1. For a text whose token sequence is not empty, \<open>evaluate_text\<close> decides once
  whether to smooth. If some token is missing from \<open>freq_tokens\<close>, every window of the
  padded sequence is scored with the Laplace estimate of \<open>smooth\<close>; if every token is
  present, every window is scored with the raw relative frequency (zero when the context
  total is zero). Either way the result is the sum over the windows of \<open>log prob\<close> when
  \<open>prob > 0\<close> and of \<open>log 1e-8\<close> otherwise. The model order is taken positive, and in
  the smoothed case the vocabulary not empty (the estimate divides by its size plus the
  context total).
\<close>

theorem evaluate_text_scoring:
  assumes "0 < n m" and "tokens_of m (normalize_text text) = tokens" and "tokens \<noteq> []"
  shows "((\<exists>t \<in> set tokens. t \<notin># freq_tokens m) \<and> 0 < card (vocab m) \<longrightarrow>
            evaluate_text m text =
              Inr (Finite (\<Sum>g\<leftarrow>windows (n m) tokens. floored_log (laplace m g)))) \<and>
         ((\<forall>t \<in> set tokens. t \<in># freq_tokens m) \<longrightarrow>
            evaluate_text m text =
              Inr (Finite (\<Sum>g\<leftarrow>windows (n m) tokens. floored_log (relative_frequency m g))))"
  using assms evaluate_text_smoothed evaluate_text_raw by blast

theorem evaluate_text_scoring_witness:
  "evaluate_text the_model ''the dog'' =
     Inr (Finite (\<Sum>g\<leftarrow>windows 2 [''the'', ''dog'']. floored_log (laplace the_model g))) \<and>
   evaluate_text the_model ''the'' =
     Inr (Finite (\<Sum>g\<leftarrow>windows 2 [''the'']. floored_log (relative_frequency the_model g)))"
proof -
  have k: "0 < n the_model" "n the_model = 2" by (simp_all add: the_model_def)
  have t1: "tokens_of the_model (normalize_text ''the dog'') = [''the'', ''dog'']"
    by (simp add: tokens_of_def the_model_def normalize_the_dog split_the_dog)
  have t2: "tokens_of the_model (normalize_text ''the'') = [''the'']"
    by (simp add: tokens_of_def the_model_def normalize_the split_the)
  have o1: "(\<exists>t \<in> set [''the'', ''dog'']. t \<notin># freq_tokens the_model) \<and> 0 < card (vocab the_model)"
    by (simp add: the_model_def)
  have o2: "\<forall>t \<in> set [''the'']. t \<in># freq_tokens the_model"
    by (simp add: the_model_def)
  show ?thesis
    using evaluate_text_scoring [OF k(1) t1] evaluate_text_scoring [OF k(1) t2] o1 o2 k(2)
    by simp
qed

text \<open>
  C3. After \<open>build_model\<close> on a text whose token sequence is not empty, \<open>evaluate_text\<close>
  on the same text returns a finite number: the call of \<open>build_model\<close> returns, every
  token of the text is then in \<open>freq_tokens\<close>, and the evaluation returns neither an
  exception nor minus infinity. The model order is taken positive.
\<close>

theorem evaluate_after_build_finite:
  assumes "0 < n m" and "tokens_of m (normalize_text text) \<noteq> []"
  shows "\<exists>m' r. build_model m text = Inr m' \<and>
           (\<forall>t \<in> set (tokens_of m' (normalize_text text)). t \<in># freq_tokens m') \<and>
           evaluate_text m' text = Inr (Finite r)"
proof -
  from assms(2) have "normalize_text text \<noteq> []"
    using tokens_of_empty by metis
  then obtain m' where b: "build_model m text = Inr m'"
    using build_model_returns by blast
  have t: "tokens_of m' (normalize_text text) = tokens_of m (normalize_text text)"
    using build_model_fields(2) [OF b] by (simp add: tokens_of_def)
  have k: "\<forall>t \<in> set (tokens_of m' (normalize_text text)). t \<in># freq_tokens m'"
    using build_model_fields(3) [OF b] t by simp
  have "0 < n m'" using assms(1) build_model_fields(1) [OF b] by simp
  from evaluate_text_raw [OF this refl _ k] assms(2) t b k show ?thesis by auto
qed

theorem evaluate_after_build_finite_witness:
  "0 < n (Language_Model 2 False) \<and>
   tokens_of (Language_Model 2 False) (normalize_text ''the dog'') \<noteq> [] \<and>
   (\<exists>m' r. build_model (Language_Model 2 False) ''the dog'' = Inr m' \<and>
      (\<forall>t \<in> set (tokens_of m' (normalize_text ''the dog'')). t \<in># freq_tokens m') \<and>
      evaluate_text m' ''the dog'' = Inr (Finite r))"
proof -
  have h1: "0 < n (Language_Model 2 False)"
    by (simp add: Language_Model_fields)
  have h2: "tokens_of (Language_Model 2 False) (normalize_text ''the dog'') \<noteq> []"
    by (simp add: tokens_of_def Language_Model_fields normalize_the_dog split_the_dog)
  show ?thesis
    using h1 h2 evaluate_after_build_finite [OF h1 h2] by simp
qed

text \<open>
  C8. \<open>evaluate_text\<close> returns minus infinity exactly when the token sequence of the
  normalized text is empty. For a token sequence that is not empty the result is never
  minus infinity, and on a model of positive order with a vocabulary that is not empty
  the call returns a finite number: a window of probability zero contributes
  \<open>log 1e-8\<close>.
\<close>

theorem evaluate_text_neginf_iff:
  "(evaluate_text m text = Inr NegInf \<longleftrightarrow> tokens_of m (normalize_text text) = []) \<and>
   (tokens_of m (normalize_text text) \<noteq> [] \<and> 0 < n m \<and> 0 < card (vocab m) \<longrightarrow>
      (\<exists>r. evaluate_text m text = Inr (Finite r)))"
proof (intro conjI impI)
  show "evaluate_text m text = Inr NegInf \<longleftrightarrow> tokens_of m (normalize_text text) = []"
    by (rule evaluate_text_neginf)
next
  assume a: "tokens_of m (normalize_text text) \<noteq> [] \<and> 0 < n m \<and> 0 < card (vocab m)"
  show "\<exists>r. evaluate_text m text = Inr (Finite r)"
  proof (cases "\<exists>t \<in> set (tokens_of m (normalize_text text)). t \<notin># freq_tokens m")
    case True
    then show ?thesis
      using a evaluate_text_smoothed [OF _ refl, of m "text"] by blast
  next
    case False
    then show ?thesis
      using a evaluate_text_raw [OF _ refl, of m "text"] by blast
  qed
qed

theorem evaluate_text_neginf_iff_witness:
  "tokens_of the_model (normalize_text ''the dog'') \<noteq> [] \<and> 0 < n the_model \<and>
   0 < card (vocab the_model) \<and>
   (\<exists>r. evaluate_text the_model ''the dog'' = Inr (Finite r)) \<and>
   evaluate_text the_model ''!!! 123'' = Inr NegInf"
proof -
  have h: "tokens_of the_model (normalize_text ''the dog'') \<noteq> [] \<and> 0 < n the_model \<and>
           0 < card (vocab the_model)"
    by (simp add: tokens_of_def the_model_def normalize_the_dog split_the_dog)
  have e: "tokens_of the_model (normalize_text ''!!! 123'') = []"
    by (simp add: tokens_of_def the_model_def normalize_text_def ascii_lower_def url_starts_def
        is_space_def is_punctuation_def is_digit_def is_word_char_def Let_def split_def)
  show ?thesis
    using h e evaluate_text_neginf_iff [of the_model "''the dog''"]
      evaluate_text_neginf_iff [of the_model "''!!! 123''"]
    by simp
qed

text \<open>
  C9. \<open>build_model\<close> only adds. After a call on a first text and a call on a second
  text, the n-gram counts, the context-next counts, the token frequencies and both
  character tables are those before the two calls plus what each text contributes to a
  newly constructed model of the same order and mode (each with its own sentinel
  padding), and the vocabulary is the union. Across any sequence of calls that returned,
  the vocabulary after contains the vocabulary before.
\<close>

theorem build_model_accumulates:
  "(build_model m text1 = Inr m1 \<and> build_model m1 text2 = Inr m2 \<longrightarrow>
      (\<exists>a b. build_model (Language_Model (n m) (chars m)) text1 = Inr a \<and>
             build_model (Language_Model (n m) (chars m)) text2 = Inr b \<and>
             model_dict m2 = model_dict m + model_dict a + model_dict b \<and>
             (\<forall>ctx. suggestions m2 ctx =
                      suggestions m ctx + suggestions a ctx + suggestions b ctx) \<and>
             freq_tokens m2 = freq_tokens m + freq_tokens a + freq_tokens b \<and>
             char_counts m2 = char_counts m + char_counts a + char_counts b \<and>
             char_pair m2 = char_pair m + char_pair a + char_pair b \<and>
             vocab m2 = vocab m \<union> set_mset (freq_tokens m) \<union> vocab a \<union> vocab b)) \<and>
   (built_from m m' \<longrightarrow> vocab m \<subseteq> vocab m')"
proof (intro conjI impI)
  assume h: "build_model m text1 = Inr m1 \<and> build_model m1 text2 = Inr m2"
  from h obtain a where a: "build_model (Language_Model (n m) (chars m)) text1 = Inr a"
      "model_dict m1 = model_dict m + model_dict a"
      "\<forall>ctx. suggestions m1 ctx = suggestions m ctx + suggestions a ctx"
      "freq_tokens m1 = freq_tokens m + freq_tokens a"
      "char_counts m1 = char_counts m + char_counts a"
      "char_pair m1 = char_pair m + char_pair a"
      "vocab m1 = vocab m \<union> set_mset (freq_tokens m) \<union> vocab a"
    using build_model_delta [of m text1 m1] by blast
  have nc: "n m1 = n m" "chars m1 = chars m"
    using h build_model_fields(1,2) by blast+
  from h obtain b where b: "build_model (Language_Model (n m) (chars m)) text2 = Inr b"
      "model_dict m2 = model_dict m1 + model_dict b"
      "\<forall>ctx. suggestions m2 ctx = suggestions m1 ctx + suggestions b ctx"
      "freq_tokens m2 = freq_tokens m1 + freq_tokens b"
      "char_counts m2 = char_counts m1 + char_counts b"
      "char_pair m2 = char_pair m1 + char_pair b"
      "vocab m2 = vocab m1 \<union> set_mset (freq_tokens m1) \<union> vocab b"
    using build_model_delta [of m1 text2 m2] nc by auto
  have va: "set_mset (freq_tokens a) \<subseteq> vocab a"
    using build_model_fields(4) [OF a(1)] by blast
  have "vocab m2 = vocab m \<union> set_mset (freq_tokens m) \<union> vocab a \<union> vocab b"
    using a(4,7) b(7) va by auto
  with a b show "\<exists>a b. build_model (Language_Model (n m) (chars m)) text1 = Inr a \<and>
             build_model (Language_Model (n m) (chars m)) text2 = Inr b \<and>
             model_dict m2 = model_dict m + model_dict a + model_dict b \<and>
             (\<forall>ctx. suggestions m2 ctx =
                      suggestions m ctx + suggestions a ctx + suggestions b ctx) \<and>
             freq_tokens m2 = freq_tokens m + freq_tokens a + freq_tokens b \<and>
             char_counts m2 = char_counts m + char_counts a + char_counts b \<and>
             char_pair m2 = char_pair m + char_pair a + char_pair b \<and>
             vocab m2 = vocab m \<union> set_mset (freq_tokens m) \<union> vocab a \<union> vocab b"
    by (intro exI [of _ a] exI [of _ b]) simp
next
  assume "built_from m m'"
  then show "vocab m \<subseteq> vocab m'" by (rule built_from_vocab_mono)
qed

theorem build_model_accumulates_witness:
  "\<exists>m2 b. build_model the_model ''the dog'' = Inr m2 \<and>
     build_model (Language_Model 2 False) ''the dog'' = Inr b \<and>
     model_dict m2 = model_dict the_model + model_dict b \<and>
     freq_tokens m2 = freq_tokens the_model + freq_tokens b \<and>
     vocab m2 = vocab the_model \<union> vocab b \<and>
     built_from (Language_Model 2 False) m2 \<and>
     vocab (Language_Model 2 False) \<subseteq> vocab m2"
proof -
  let ?f = "Language_Model 2 False"
  obtain m2 where m2: "build_model the_model ''the dog'' = Inr m2"
    using build_model_returns [of "''the dog''" the_model] by (auto simp: normalize_the_dog)
  have bf: "built_from ?f m2"
    using built_from.call [OF built_from.call [OF built_from.no_call build_model_the] m2] .
  have f: "model_dict ?f = {#}" "freq_tokens ?f = {#}" "vocab ?f = {}"
    by (simp_all add: Language_Model_fields)
  from build_model_accumulates [of ?f "''the''" the_model "''the dog''" m2 m2]
    build_model_the m2 bf
  obtain a b where ab: "build_model ?f ''the'' = Inr a" "build_model ?f ''the dog'' = Inr b"
      "model_dict m2 = model_dict ?f + model_dict a + model_dict b"
      "freq_tokens m2 = freq_tokens ?f + freq_tokens a + freq_tokens b"
      "vocab m2 = vocab ?f \<union> set_mset (freq_tokens ?f) \<union> vocab a \<union> vocab b"
      "vocab ?f \<subseteq> vocab m2"
    by (auto simp: Language_Model_fields)
  from ab(1) build_model_the have "a = the_model" by simp
  with ab f m2 bf show ?thesis by auto
qed

text \<open>
  C6, as amended. On every language model that a returned call of \<open>build_model\<close> has
  left (the call made on a newly constructed model or on one built before), and for
  every n-gram that is not the empty tuple, \<open>smooth\<close> returns (count of the n-gram + 1)
  / (total of its context + size of the vocabulary), and this number is greater than 0
  and at most 1. On a model that was never built the claim as stated fails: both terms
  of the denominator are zero and \<open>smooth\<close> raises ZeroDivisionError.
\<close>

theorem smooth_in_unit_interval:
  assumes "reachable m0" and "build_model m0 text = Inr m" and "ngram \<noteq> []"
  shows "smooth m ngram = Inr (laplace m ngram) \<and> 0 < laplace m ngram \<and> laplace m ngram \<le> 1"
proof -
  have r: "reachable m" using assms(1,2) by (rule reachable.built)
  have v: "vocab m \<noteq> {}" using assms(2) by (rule build_model_vocab_nonempty)
  have i: "count (model_dict m) ngram \<le> count (suggestions m (butlast ngram)) (last ngram)"
      "vocab m = set_mset (freq_tokens m)"
    using reachable_invariant [OF r] assms(3) by simp_all
  then have f: "finite (vocab m)" by simp
  then have "0 < card (vocab m)" using v by (simp add: card_gt_0_iff)
  then show ?thesis
    using smooth_laplace [OF assms(3)] laplace_bounds [OF i(1) f v] by simp
qed

theorem smooth_untrained_counterexample:
  "smooth (Language_Model 3 False) [''a'', ''b'', ''c''] = Inl ZeroDivisionError"
  by (simp add: smooth_def Language_Model_def py_truediv_def)

theorem smooth_in_unit_interval_witness:
  "reachable (Language_Model 2 False) \<and>
   build_model (Language_Model 2 False) ''the'' = Inr the_model \<and>
   [''the'', ''dog''] \<noteq> [] \<and>
   smooth the_model [''the'', ''dog''] = Inr (1 / 2) \<and>
   0 < laplace the_model [''the'', ''dog''] \<and> laplace the_model [''the'', ''dog''] \<le> 1"
proof -
  have l: "laplace the_model [''the'', ''dog''] = 1 / 2"
    by (simp add: laplace_def the_model_def)
  show ?thesis
    using smooth_in_unit_interval [OF reachable.fresh build_model_the, of "[''the'', ''dog'']"]
      l reachable.fresh [of 2 False] build_model_the
    by simp
qed

text \<open>
  C5, as amended. \<open>edits1\<close> returns a set, so no entry occurs in it twice. The set
  contains the word itself exactly when the word holds a letter from \<open>a\<close> to \<open>z\<close>
  (the substitution of that letter for itself) or two equal adjacent characters (their
  transposition). The claim as stated fails: \<open>edits1('a')\<close> contains \<open>'a'\<close> by a
  single substitution, and \<open>edits1('11')\<close> contains \<open>'11'\<close> by a single transposition
  although no deletion followed by an insertion of \<open>edits1\<close> leads from \<open>'11'\<close> back
  to it (only letters are inserted).
\<close>

theorem edits1_contains_word_iff:
  "w \<in> edits1 w \<longleftrightarrow>
     (\<exists>c \<in> set w. c \<in> set letters) \<or> (\<exists>i. Suc i < length w \<and> w ! i = w ! Suc i)"
  by (rule edits1_self_iff)

theorem edits1_contains_word_counterexample:
  "''a'' \<in> edits1 ''a'' \<and> ''11'' \<in> edits1 ''11'' \<and>
   \<not> (\<exists>x \<in> set (deletes ''11''). ''11'' \<in> set (inserts x))"
proof (intro conjI notI)
  show "''a'' \<in> edits1 ''a''"
    unfolding edits1_self_iff by (simp add: letters_def)
  have "Suc 0 < length ''11'' \<and> ''11'' ! 0 = ''11'' ! Suc 0" by simp
  then show "''11'' \<in> edits1 ''11''"
    unfolding edits1_self_iff by blast
next
  assume "\<exists>x \<in> set (deletes ''11''). ''11'' \<in> set (inserts x)"
  then obtain x i c where "c \<in> set letters" "''11'' = take i x @ [c] @ drop i x"
    unfolding in_inserts by blast
  then have "c \<in> set ''11''" by (metis in_set_conv_decomp append_Cons append_Nil)
  with \<open>c \<in> set letters\<close> show False by (auto simp: letters_def)
qed

text \<open>
  C2. \<open>get_candidates\<close> is a cascade (given that a language model is set): a word of
  the vocabulary gives exactly the set of that word; otherwise the words of \<open>edits1\<close>
  that are in the vocabulary, if there are any; otherwise the words of \<open>edits2\<close> that
  are in the vocabulary, if there are any; otherwise the set of the word itself. In
  particular every word of the vocabulary is its own only candidate.
\<close>

theorem get_candidates_cascade:
  assumes "lm sc = Some m"
  shows "get_candidates sc word =
           Inr (if word \<in> vocab m then {word}
                else if edits1 word \<inter> vocab m \<noteq> {} then edits1 word \<inter> vocab m
                else if edits2 word \<inter> vocab m \<noteq> {} then edits2 word \<inter> vocab m
                else {word}) \<and>
         (word \<in> vocab m \<longrightarrow> get_candidates sc word = Inr {word})"
  by (simp add: get_candidates_def known_some [OF assms])

theorem get_candidates_cascade_witness:
  "lm the_checker = Some the_model \<and> ''the'' \<in> vocab the_model \<and>
   get_candidates the_checker ''the'' = Inr {''the''} \<and>
   get_candidates the_checker ''tha'' = Inr {''the''}"
proof -
  have l: "lm the_checker = Some the_model" by (simp add: the_checker_def)
  have v: "''the'' \<in> vocab the_model" by (simp add: the_model_def)
  show ?thesis
    using l v get_candidates_cascade [OF l, of "''the''"] candidates_tha by simp
qed

text \<open>
  C4, as amended. In \<open>spell_check\<close>, when a language model is set and the token count
  is at least the model order, the scan visits the out-of-vocabulary tokens in the
  order of their positions, whether or not they are adjacent. The correction of each is
  computed with the up to order - 1 tokens before it as context. At the first such
  token whose correction differs from it, that one token is replaced and the joined
  sentence is returned at once (or the call raises what computing that correction
  raised); when there is none, control reaches the sentence search (\<open>None\<close>).
  The claim as stated, that only the first run of out-of-vocabulary
  tokens is considered, fails: for the tokens \<open>zzzzzz the tha\<close> and the vocabulary
  \<open>{the}\<close> the first run is position 0 alone, its correction is the token itself, and
  the call replaces the token at position 2.
\<close>

theorem spell_check_oov_scan:
  assumes "lm sc = Some m" and "split (normalize_text text) = tokens"
    and "tokens \<noteq> []" and "n m \<le> length tokens"
  shows "spell_check best sc text alpha =
     (case find (\<lambda>i. tokens ! i \<notin> vocab m \<and>
                      correction_at best sc (n m) tokens alpha i \<noteq> Inr (tokens ! i))
             [0..<length tokens] of
        None \<Rightarrow> Inr None
      | Some i \<Rightarrow>
          (case correction_at best sc (n m) tokens alpha i of
             Inl e \<Rightarrow> Inl e
           | Inr c \<Rightarrow> Inr (Some (join '' '' (tokens[i := c])))))"
  using assms by (rule spell_check_scan)

theorem spell_check_first_run_counterexample:
  "split (normalize_text ''zzzzzz the tha'') = [''zzzzzz'', ''the'', ''tha''] \<and>
   n the_model \<le> 3 \<and>
   first_oov_run (vocab the_model) [''zzzzzz'', ''the'', ''tha''] = [0] \<and>
   (\<exists>best. max_like best) \<and>
   \<not> (\<exists>best. max_like best \<and>
          spell_check best the_checker ''zzzzzz the tha'' (1 / 2) \<noteq>
            Inr (Some ''zzzzzz the the''))"
proof -
  have "first_oov_run (vocab the_model) [''zzzzzz'', ''the'', ''tha''] = [0]"
    by (simp add: first_oov_run_def the_model_def)
  moreover have "n the_model \<le> 3" by (simp add: the_model_def)
  ultimately show ?thesis
    using spell_check_zzzzzz_the_tha max_like_exists
    by (simp add: normalize_zzzzzz_the_tha split_zzzzzz_the_tha)
qed

theorem spell_check_oov_scan_witness:
  "lm the_checker = Some the_model \<and>
   split (normalize_text ''zzzzzz the tha'') = [''zzzzzz'', ''the'', ''tha''] \<and>
   n the_model \<le> length [''zzzzzz'', ''the'', ''tha''] \<and>
   (\<exists>best. max_like best \<and>
      spell_check best the_checker ''zzzzzz the tha'' (1 / 2) = Inr (Some ''zzzzzz the the''))"
proof -
  obtain best where b: "max_like best" using max_like_exists by blast
  have l: "lm the_checker = Some the_model" by (simp add: the_checker_def)
  have s: "split (normalize_text ''zzzzzz the tha'') = [''zzzzzz'', ''the'', ''tha'']"
    by (simp add: normalize_zzzzzz_the_tha split_zzzzzz_the_tha)
  have k: "n the_model \<le> length [''zzzzzz'', ''the'', ''tha'']" by (simp add: the_model_def)
  have v: "vocab the_model = {''the''}" by (simp add: the_model_def)
  have "spell_check best the_checker ''zzzzzz the tha'' (1 / 2) = Inr (Some ''zzzzzz the the'')"
    unfolding spell_check_oov_scan [OF l s _ k, simplified]
    by (simp add: upt_3 v correction_at_def correction_zzzzzz [OF b] correction_tha [OF b])
  with b l s k show ?thesis by blast
qed

text \<open>
  C7. With error tables and a language model set, each of the four estimators returns a
  number: it raises nothing, in particular no division error. Each returns 0 when the
  normalizing frequency at its first edit point (of the character pair for deletion and
  transposition, of a single character for insertion and substitution) is zero, a key
  that is absent counting zero. When the search finds no edit point, deletion, insertion
  and substitution return 0, while transposition (on two words of equal length, the
  only case in which it searches) returns 1e-8.
\<close>

theorem estimators_zero_and_floor:
  assumes "error_tables sc = Some t" and "lm sc = Some m"
  shows "(\<exists>r. deletion_probability sc mw ow = Inr r) \<and>
         (\<exists>r. insertion_probability sc mw ow = Inr r) \<and>
         (\<exists>r. substitution_probability sc mw ow = Inr r) \<and>
         (\<exists>r. transposition_probability sc mw ow = Inr r) \<and>
         (find (removal_point mw ow) [0..<length mw] = Some idx \<and>
          count (char_pair m) (edit_pair mw idx) = 0 \<longrightarrow>
            deletion_probability sc mw ow = Inr 0) \<and>
         (find (removal_point ow mw) [0..<length ow] = Some idx \<and>
          count (char_counts m) (edit_pair ow idx ! 0) = 0 \<longrightarrow>
            insertion_probability sc mw ow = Inr 0) \<and>
         (find (\<lambda>(mod_char, orig_char). mod_char \<noteq> orig_char) (zip mw ow) = Some (mc, oc) \<and>
          count (char_counts m) mc = 0 \<longrightarrow>
            substitution_probability sc mw ow = Inr 0) \<and>
         (find (transposition_point mw ow) [0..<length ow - 1] = Some i \<and>
          count (char_pair m) (take 2 (drop i ow)) = 0 \<longrightarrow>
            transposition_probability sc mw ow = Inr 0) \<and>
         (find (removal_point mw ow) [0..<length mw] = None \<longrightarrow>
            deletion_probability sc mw ow = Inr 0) \<and>
         (find (removal_point ow mw) [0..<length ow] = None \<longrightarrow>
            insertion_probability sc mw ow = Inr 0) \<and>
         (find (\<lambda>(mod_char, orig_char). mod_char \<noteq> orig_char) (zip mw ow) = None \<longrightarrow>
            substitution_probability sc mw ow = Inr 0) \<and>
         (length mw = length ow \<and>
          find (transposition_point mw ow) [0..<length ow - 1] = None \<longrightarrow>
            transposition_probability sc mw ow = Inr (1 / 10 ^ 8))"
proof (intro conjI impI)
  show "\<exists>r. deletion_probability sc mw ow = Inr r"
    using ratio_or_zero_returns
    by (simp add: deletion_cases [OF assms] split: option.splits)
  show "\<exists>r. insertion_probability sc mw ow = Inr r"
    using ratio_or_zero_returns
    by (simp add: insertion_cases [OF assms] split: option.splits)
  show "\<exists>r. substitution_probability sc mw ow = Inr r"
    using ratio_or_zero_returns
    by (simp add: substitution_cases [OF assms] split: option.splits prod.splits)
  show "\<exists>r. transposition_probability sc mw ow = Inr r"
  proof (cases "find (transposition_point mw ow) [0..<length ow - 1]")
    case None
    show ?thesis
    proof (cases "length mw = length ow")
      case True
      with None have "transposition_probability sc mw ow = Inr (1 / 10 ^ 8)"
        by (simp add: transposition_cases [OF assms])
      then show ?thesis by (rule exI)
    next
      case False
      then have "transposition_probability sc mw ow = Inr 0"
        by (simp add: transposition_cases [OF assms])
      then show ?thesis by (rule exI)
    qed
  next
    case (Some i)
    then show ?thesis
      using ratio_or_zero_returns by (simp add: transposition_cases [OF assms])
  qed
next
  assume "find (removal_point mw ow) [0..<length mw] = Some idx \<and>
          count (char_pair m) (edit_pair mw idx) = 0"
  then show "deletion_probability sc mw ow = Inr 0"
    by (cases "length mw = length ow + 1") (simp_all add: deletion_cases [OF assms] ratio_or_zero_0)
next
  assume "find (removal_point ow mw) [0..<length ow] = Some idx \<and>
          count (char_counts m) (edit_pair ow idx ! 0) = 0"
  then show "insertion_probability sc mw ow = Inr 0"
    by (cases "length mw + 1 = length ow") (simp_all add: insertion_cases [OF assms] ratio_or_zero_0)
next
  assume "find (\<lambda>(mod_char, orig_char). mod_char \<noteq> orig_char) (zip mw ow) = Some (mc, oc) \<and>
          count (char_counts m) mc = 0"
  then show "substitution_probability sc mw ow = Inr 0"
    by (cases "length mw = length ow") (simp_all add: substitution_cases [OF assms] ratio_or_zero_0)
next
  assume "find (transposition_point mw ow) [0..<length ow - 1] = Some i \<and>
          count (char_pair m) (take 2 (drop i ow)) = 0"
  then show "transposition_probability sc mw ow = Inr 0"
    by (cases "length mw = length ow") (simp_all add: transposition_cases [OF assms] ratio_or_zero_0)
next
  assume "find (removal_point mw ow) [0..<length mw] = None"
  then show "deletion_probability sc mw ow = Inr 0"
    by (cases "length mw = length ow + 1") (simp_all add: deletion_cases [OF assms])
next
  assume "find (removal_point ow mw) [0..<length ow] = None"
  then show "insertion_probability sc mw ow = Inr 0"
    by (cases "length mw + 1 = length ow") (simp_all add: insertion_cases [OF assms])
next
  assume "find (\<lambda>(mod_char, orig_char). mod_char \<noteq> orig_char) (zip mw ow) = None"
  then show "substitution_probability sc mw ow = Inr 0"
    by (simp add: substitution_cases [OF assms])
next
  assume "length mw = length ow \<and>
          find (transposition_point mw ow) [0..<length ow - 1] = None"
  then show "transposition_probability sc mw ow = Inr (1 / 10 ^ 8)"
    by (simp add: transposition_cases [OF assms])
qed

theorem estimators_zero_and_floor_witness:
  "deletion_probability the_full_checker ''xthe'' ''the'' = Inr 0 \<and>
   insertion_probability the_full_checker ''the'' ''xthe'' = Inr 0 \<and>
   substitution_probability the_full_checker ''thx'' ''the'' = Inr 0 \<and>
   transposition_probability the_full_checker ''bac'' ''abc'' = Inr 0 \<and>
   deletion_probability the_full_checker ''abcd'' ''the'' = Inr 0 \<and>
   insertion_probability the_full_checker ''abc'' ''thex'' = Inr 0 \<and>
   substitution_probability the_full_checker ''the'' ''the'' = Inr 0 \<and>
   transposition_probability the_full_checker ''the'' ''the'' = Inr (1 / 10 ^ 8)"
proof -
  note f = the_full_checker_fields
  have d1: "find (removal_point ''xthe'' ''the'') [0..<length ''xthe''] = Some 0 \<and>
            count (char_pair the_model) (edit_pair ''xthe'' 0) = 0"
    by (simp add: removal_point_def edit_pair_def the_model_def upt_rec)
  have i1: "find (removal_point ''xthe'' ''the'') [0..<length ''xthe''] = Some 0 \<and>
            count (char_counts the_model) (edit_pair ''xthe'' 0 ! 0) = 0"
    by (simp add: removal_point_def edit_pair_def the_model_def upt_rec)
  have s1: "find (\<lambda>(mod_char, orig_char). mod_char \<noteq> orig_char) (zip ''thx'' ''the'') =
              Some (CHR ''x'', CHR ''e'') \<and>
            count (char_counts the_model) (CHR ''x'') = 0"
    by (simp add: the_model_def)
  have t1: "find (transposition_point ''bac'' ''abc'') [0..<length ''abc'' - 1] = Some 0 \<and>
            count (char_pair the_model) (take 2 (drop 0 ''abc'')) = 0"
    by (simp add: transposition_point_def the_model_def upt_rec)
  have d2: "find (removal_point ''abcd'' ''the'') [0..<length ''abcd''] = None"
    by (simp add: removal_point_def upt_rec)
  have i2: "find (removal_point ''thex'' ''abc'') [0..<length ''thex''] = None"
    by (simp add: removal_point_def upt_rec)
  have s2: "find (\<lambda>(mod_char, orig_char). mod_char \<noteq> orig_char) (zip ''the'' ''the'') = None"
    by simp
  have t2: "length ''the'' = length ''the'' \<and>
            find (transposition_point ''the'' ''the'') [0..<length ''the'' - 1] = None"
    by (simp add: transposition_point_def upt_rec)
  have r1: "deletion_probability the_full_checker ''xthe'' ''the'' = Inr 0"
    using estimators_zero_and_floor [OF f, where mw = "''xthe''" and ow = "''the''" and idx = 0]
      d1 by blast
  have r2: "insertion_probability the_full_checker ''the'' ''xthe'' = Inr 0"
    using estimators_zero_and_floor [OF f, where mw = "''the''" and ow = "''xthe''" and idx = 0]
      i1 by blast
  have r3: "substitution_probability the_full_checker ''thx'' ''the'' = Inr 0"
    using estimators_zero_and_floor [OF f, where mw = "''thx''" and ow = "''the''"
        and mc = "CHR ''x''" and oc = "CHR ''e''"]
      s1 by blast
  have r4: "transposition_probability the_full_checker ''bac'' ''abc'' = Inr 0"
    using estimators_zero_and_floor [OF f, where mw = "''bac''" and ow = "''abc''" and i = 0]
      t1 by blast
  have r5: "deletion_probability the_full_checker ''abcd'' ''the'' = Inr 0"
    using estimators_zero_and_floor [OF f, where mw = "''abcd''" and ow = "''the''"]
      d2 by blast
  have r6: "insertion_probability the_full_checker ''abc'' ''thex'' = Inr 0"
    using estimators_zero_and_floor [OF f, where mw = "''abc''" and ow = "''thex''"]
      i2 by blast
  have r7: "substitution_probability the_full_checker ''the'' ''the'' = Inr 0"
    using estimators_zero_and_floor [OF f, where mw = "''the''" and ow = "''the''"]
      s2 by blast
  have r8: "transposition_probability the_full_checker ''the'' ''the'' = Inr (1 / 10 ^ 8)"
    using estimators_zero_and_floor [OF f, where mw = "''the''" and ow = "''the''"]
      t2 by blast
  from r1 r2 r3 r4 r5 r6 r7 r8 show ?thesis by (intro conjI)
qed

end
